theory Spec2Isabelle
  imports
    Main
    "HOL-Library.Char_ord"
    "HOL-Library.List_Lexorder"
    "HOL-Library.Product_Lexorder"
    "HOL-Library.Multiset"
begin

section \<open>Go standard library functions used by the backend\<close>

text \<open>
  The backend is \<open>app.go\<close> in its later revision, the one that sorts subfolders with
  \<open>natsort\<close>, sorts the image list and reads \<open>.raf\<close> files. The sources also hold an
  earlier revision of the file, which compares folder names as plain lower-case strings,
  returns the images in walk order and has no \<open>.raf\<close> entry in its extension list; it
  is not what is modelled here.

  Go strings are byte sequences; they are modelled as \<^typ>\<open>string\<close> (a list of 8-bit
  characters). With \<open>Char_ord\<close> and \<open>List_Lexorder\<close> the order \<open><\<close> on \<^typ>\<open>string\<close> is the
  byte-wise lexicographic order, which is Go's \<open><\<close> on strings.

  \<open>strings.ToLower\<close> is modelled on the ASCII letters; bytes outside \<open>A..Z\<close> are kept.
\<close>

definition lower_byte :: "char \<Rightarrow> char" where
  "lower_byte c =
     (case map_of (zip ''ABCDEFGHIJKLMNOPQRSTUVWXYZ'' ''abcdefghijklmnopqrstuvwxyz'') c of
        None \<Rightarrow> c
      | Some d \<Rightarrow> d)"

definition strings_ToLower :: "string \<Rightarrow> string" where
  "strings_ToLower s = map lower_byte s"

text \<open>\<open>strings.HasPrefix(s, ".")\<close>.\<close>

definition has_dot_prefix :: "string \<Rightarrow> bool" where
  "has_dot_prefix s = (case s of [] \<Rightarrow> False | c # _ \<Rightarrow> c = CHR ''.'')"

text \<open>
  \<open>filepath.Ext\<close>: scan from the last byte towards the front, stop at a path separator,
  return the suffix that starts at the first dot met. The scan runs over the reversed
  path; \<open>acc\<close> holds the bytes already passed, in path order.
\<close>

fun ext_scan :: "string \<Rightarrow> string \<Rightarrow> string" where
  "ext_scan [] acc = []"
| "ext_scan (c # cs) acc =
     (if c = CHR ''/'' then []
      else if c = CHR ''.'' then c # acc
      else ext_scan cs (c # acc))"

definition filepath_Ext :: "string \<Rightarrow> string" where
  "filepath_Ext path = ext_scan (rev path) []"

text \<open>
  \<open>filepath.Base\<close> (Unix): the empty path gives \<open>.\<close>; trailing separators are stripped;
  the last element is returned; a path of separators only gives \<open>/\<close>.
\<close>

definition filepath_Base :: "string \<Rightarrow> string" where
  "filepath_Base path =
     (if path = [] then ''.''
      else
        let stripped = dropWhile (\<lambda>c. c = CHR ''/'') (rev path);
            b = rev (takeWhile (\<lambda>c. c \<noteq> CHR ''/'') stripped)
        in if b = [] then ''/'' else b)"

text \<open>
  \<open>filepath.Clean\<close> (Unix), by the rules of its documentation: a run of separators
  counts as one; every \<open>.\<close> element is dropped; every \<open>..\<close> element is dropped
  together with the element before it, unless that one is itself \<open>..\<close>; a \<open>..\<close> at the
  start of a rooted path is dropped; the result ends in a separator only when it is the
  root, and the empty result is \<open>.\<close>. \<open>split_sep\<close> cuts a path at its separators,
  \<open>resolve\<close> goes through the elements with the elements kept so far as a stack, and
  \<open>render\<close> writes the kept elements out again.
\<close>

fun split_sep :: "string \<Rightarrow> string list" where
  "split_sep [] = [[]]"
| "split_sep (c # cs) =
     (if c = CHR ''/'' then [] # split_sep cs
      else case split_sep cs of [] \<Rightarrow> [[c]] | w # ws \<Rightarrow> (c # w) # ws)"

definition path_elements :: "string \<Rightarrow> string list" where
  "path_elements p = filter (\<lambda>e. e \<noteq> [] \<and> e \<noteq> ''.'') (split_sep p)"

fun resolve :: "bool \<Rightarrow> string list \<Rightarrow> string list \<Rightarrow> string list" where
  "resolve rooted st [] = rev st"
| "resolve rooted st (e # es) =
     (if e = ''..'' then
        (case st of
           [] \<Rightarrow> if rooted then resolve rooted [] es else resolve rooted [''..''] es
         | t # ts \<Rightarrow>
             if t = ''..'' then resolve rooted (''..'' # t # ts) es
             else resolve rooted ts es)
      else resolve rooted (e # st) es)"

fun join_sep :: "string list \<Rightarrow> string" where
  "join_sep [] = []"
| "join_sep [e] = e"
| "join_sep (e # f # es) = e @ ''/'' @ join_sep (f # es)"

definition is_rooted :: "string \<Rightarrow> bool" where
  "is_rooted p = (case p of [] \<Rightarrow> False | c # _ \<Rightarrow> c = CHR ''/'')"

definition render :: "bool \<Rightarrow> string list \<Rightarrow> string" where
  "render rooted out =
     (if rooted then ''/'' @ join_sep out
      else if out = [] then ''.'' else join_sep out)"

definition filepath_Clean :: "string \<Rightarrow> string" where
  "filepath_Clean p =
     (if p = [] then ''.''
      else render (is_rooted p) (resolve (is_rooted p) [] (path_elements p)))"

text \<open>
  \<open>filepath.Join(base, name)\<close> cleans the elements joined by a separator, starting from
  the first element that is not empty. \<open>filepath.Dir\<close> cleans the path up to and
  including its last separator.
\<close>

definition filepath_Join :: "string \<Rightarrow> string \<Rightarrow> string" where
  "filepath_Join base name =
     (if base \<noteq> [] then filepath_Clean (base @ ''/'' @ name)
      else if name \<noteq> [] then filepath_Clean name
      else [])"

definition filepath_Dir :: "string \<Rightarrow> string" where
  "filepath_Dir path = filepath_Clean (rev (dropWhile (\<lambda>c. c \<noteq> CHR ''/'') (rev path)))"

text \<open>
  \<open>sort.Slice\<close> and \<open>sort.Strings\<close>: Go's insertion sort (the algorithm its sort uses on
  slices of fewer than 12 elements): element \<open>i\<close> is swapped towards the front while
  the comparator holds between it and its left neighbour. \<open>shift_front\<close> works on the already
  sorted prefix in reversed order. For a comparator that is a strict weak order every sorting
  algorithm returns a sorted permutation of its input; the theorems below state that
  much.
\<close>

primrec shift_front :: "('a \<Rightarrow> 'a \<Rightarrow> bool) \<Rightarrow> 'a \<Rightarrow> 'a list \<Rightarrow> 'a list" where
  "shift_front lt x [] = [x]"
| "shift_front lt x (y # ys) =
     (if lt x y then y # shift_front lt x ys else x # y # ys)"

definition sort_Slice :: "('a \<Rightarrow> 'a \<Rightarrow> bool) \<Rightarrow> 'a list \<Rightarrow> 'a list" where
  "sort_Slice lt xs = rev (foldl (\<lambda>acc x. shift_front lt x acc) [] xs)"

definition sort_Strings :: "string list \<Rightarrow> string list" where
  "sort_Strings xs = sort_Slice (\<lambda>a b. a < b) xs"


text \<open>
  Modelled from the spec: \<open>natsort.Compare\<close> of the third-party package
  \<open>github.com/facette/natsort\<close>, whose source is not part of the repository. The spec
  says: natural order, numeric runs compare by numeric value. A name is cut into maximal
  runs of digits and of other bytes; two digit runs compare by their value, every other
  pair of runs as byte strings (so a run starting with a byte below \<open>0\<close> comes before a
  digit run, and a run starting with a byte above \<open>9\<close> after it); names compare run by
  run, a proper prefix first.
\<close>

definition is_digit :: "char \<Rightarrow> bool" where
  "is_digit c = (CHR ''0'' \<le> c \<and> c \<le> CHR ''9'')"

primrec chunkify :: "string \<Rightarrow> string list" where
  "chunkify [] = []"
| "chunkify (c # cs) =
     (case chunkify cs of
        [] \<Rightarrow> [[c]]
      | [] # ks \<Rightarrow> [c] # ks
      | (d # k) # ks \<Rightarrow>
          if is_digit c = is_digit d then (c # d # k) # ks else [c] # (d # k) # ks)"

definition digits_value :: "string \<Rightarrow> nat" where
  "digits_value ds = foldl (\<lambda>n c. 10 * n + (of_char c - 48)) 0 ds"

type_synonym runkey = "nat \<times> nat \<times> string"

definition run_key :: "string \<Rightarrow> runkey" where
  "run_key k =
     (case k of
        [] \<Rightarrow> (0, 0, [])
      | c # _ \<Rightarrow>
          if is_digit c then (1, digits_value k, [])
          else if c < CHR ''0'' then (0, 0, k)
          else (2, 0, k))"

definition natkey :: "string \<Rightarrow> runkey list" where
  "natkey s = map run_key (chunkify s)"

definition natsort_Compare :: "string \<Rightarrow> string \<Rightarrow> bool" where
  "natsort_Compare a b = (natkey a < natkey b)"

section \<open>The file system seen by the backend\<close>

text \<open>
  What \<open>os.Stat\<close>, \<open>os.Lstat\<close> and \<open>os.ReadDir\<close> answer for a path and for the paths
  below it:
  \<^item> \<open>File\<close>: a directory entry that is not a directory;
  \<^item> \<open>Dir (Some es)\<close>: a directory whose listing succeeds with the entries \<open>es\<close>
    (name and object), in the order \<open>ReadDir\<close> returns them;
  \<^item> \<open>Dir None\<close>: a directory on which \<open>Stat\<close> succeeds and \<open>ReadDir\<close> fails (no read
    permission);
  \<^item> \<open>NoStat\<close>: a path on which \<open>Stat\<close> and \<open>ReadDir\<close> fail; as a directory entry, one
    that its parent's listing reports as a directory (no search permission on the
    parent, or removed since); as a root, also a path that does not exist.
  The hierarchy is a tree, so every walk terminates.
\<close>

datatype fsobj = NoStat | File | Dir "(string \<times> fsobj) list option"

text \<open>\<open>entry.IsDir()\<close> of a directory entry, from the listing of its parent.\<close>

fun entry_IsDir :: "fsobj \<Rightarrow> bool" where
  "entry_IsDir File = False"
| "entry_IsDir _ = True"

text \<open>\<open>os.ReadDir\<close>: the entries, or \<open>None\<close> for an error.\<close>

fun os_ReadDir :: "fsobj \<Rightarrow> (string \<times> fsobj) list option" where
  "os_ReadDir (Dir l) = l"
| "os_ReadDir _ = None"

datatype go_error =
    StatFailed string
  | NotADirectory string
  | ReadDirFailed string
  | LstatFailed string

text \<open>Lines written with \<open>runtime.LogError\<close>.\<close>

datatype logline =
    ErrorReadingDirectory string
  | ErrorProcessingSubdirectory string go_error

section \<open>ListSubfolders\<close>

datatype Folder = Folder (Name: string) (Path: string) (Children: "Folder list")

definition name_less :: "Folder \<Rightarrow> Folder \<Rightarrow> bool" where
  "name_less a b = natsort_Compare (strings_ToLower (Name a)) (strings_ToLower (Name b))"

text \<open>
  \<open>ListSubfolders basePath\<close>, with the object found at \<open>basePath\<close>. The result is Go's
  pair: \<open>Inl\<close> the error, \<open>Inr\<close> the node; the second component is what was logged.
  \<open>subfolders_loop\<close> is the \<open>for _, entry := range entries\<close> loop: it returns the
  children appended and the lines logged.
\<close>

fun ListSubfolders :: "string \<Rightarrow> fsobj \<Rightarrow> (go_error + Folder) \<times> logline list"
  and subfolders_loop :: "string \<Rightarrow> (string \<times> fsobj) list \<Rightarrow> Folder list \<times> logline list"
where
  "ListSubfolders basePath NoStat = (Inl (StatFailed basePath), [])"
| "ListSubfolders basePath File = (Inl (NotADirectory basePath), [])"
| "ListSubfolders basePath (Dir None) =
     (Inr (Folder (filepath_Base basePath) basePath []), [ErrorReadingDirectory basePath])"
| "ListSubfolders basePath (Dir (Some entries)) =
     (let (children, logged) = subfolders_loop basePath entries
      in (Inr (Folder (filepath_Base basePath) basePath (sort_Slice name_less children)),
          logged))"
| "subfolders_loop basePath [] = ([], [])"
| "subfolders_loop basePath ((name, obj) # entries) =
     (if entry_IsDir obj then
        if has_dot_prefix name then subfolders_loop basePath entries
        else
          let childPath = filepath_Join basePath name;
              (res, log1) = ListSubfolders childPath obj;
              (children, log2) = subfolders_loop basePath entries
          in case res of
               Inl err \<Rightarrow> (children, log1 @ [ErrorProcessingSubdirectory childPath err] @ log2)
             | Inr childNode \<Rightarrow> (childNode # children, log1 @ log2)
      else subfolders_loop basePath entries)"

section \<open>ListImages\<close>

definition validExtensions :: "string \<Rightarrow> bool" where
  "validExtensions ext =
     (ext \<in> set [''.jpg'', ''.jpeg'', ''.png'', ''.gif'', ''.bmp'', ''.webp'', ''.raf''])"

text \<open>
  The function handed to \<open>filepath.WalkDir\<close>, on a call without error: a path that is
  not a directory, lies directly in \<open>dirPath\<close> and has a valid extension is appended to
  \<open>imageFiles\<close>. On a call with an error it returns the error, which ends the walk.
\<close>

definition visit :: "string \<Rightarrow> string \<Rightarrow> bool \<Rightarrow> string list \<Rightarrow> string list" where
  "visit dirPath path isDir imageFiles =
     (if \<not> isDir \<and> filepath_Dir path = dirPath then
        if validExtensions (strings_ToLower (filepath_Ext path)) then imageFiles @ [path]
        else imageFiles
      else imageFiles)"

text \<open>
  \<open>walkDir\<close> of package \<open>filepath\<close> with that function: visit the path; for a directory
  (\<open>d.IsDir()\<close>) read its entries (a failure is passed to the function, which returns
  it) and walk each entry in turn, stopping at the first error.
\<close>

fun walkDir :: "string \<Rightarrow> string \<Rightarrow> fsobj \<Rightarrow> string list \<Rightarrow> go_error + string list"
  and walkEntries ::
    "string \<Rightarrow> string \<Rightarrow> (string \<times> fsobj) list \<Rightarrow> string list \<Rightarrow> go_error + string list"
where
  "walkDir dirPath path File imageFiles = Inr (visit dirPath path False imageFiles)"
| "walkDir dirPath path NoStat imageFiles = Inl (ReadDirFailed path)"
| "walkDir dirPath path (Dir None) imageFiles = Inl (ReadDirFailed path)"
| "walkDir dirPath path (Dir (Some dirs)) imageFiles =
     walkEntries dirPath path dirs (visit dirPath path True imageFiles)"
| "walkEntries dirPath path [] imageFiles = Inr imageFiles"
| "walkEntries dirPath path ((name, obj) # dirs) imageFiles =
     (case walkDir dirPath (filepath_Join path name) obj imageFiles of
        Inl err \<Rightarrow> Inl err
      | Inr imageFiles' \<Rightarrow> walkEntries dirPath path dirs imageFiles')"

text \<open>
  \<open>ListImages dirPath\<close>, with the object found at \<open>dirPath\<close>: \<open>WalkDir\<close> first calls
  \<open>os.Lstat\<close> on the root; the files collected are sorted with \<open>sort.Strings\<close>.
\<close>

definition ListImages :: "string \<Rightarrow> fsobj \<Rightarrow> go_error + string list" where
  "ListImages dirPath obj =
     (case obj of
        NoStat \<Rightarrow> Inl (LstatFailed dirPath)
      | _ \<Rightarrow>
          (case walkDir dirPath dirPath obj [] of
             Inl err \<Rightarrow> Inl err
           | Inr imageFiles \<Rightarrow> Inr (sort_Strings imageFiles)))"

section \<open>ReadImage\<close>

text \<open>
  A Go call either returns or panics. \<open>raw.ReadRAF\<close> (package \<open>pic-viewer/raw\<close>, not
  among the sources) and the decoders of the standard library are taken as parameters:
  what they do for a path is a field of \<open>io\<close>.
\<close>

datatype 'a outcome = Returns 'a | Panics string

datatype raf_outcome = RafPanics string | RafNil | RafData "nat list"

datatype 'img decode_outcome = DecodePanics string | DecodeFails | Decoded 'img

datatype read_error =
    PanicDecodingRAF string string
  | ExtractJpegFailed string
  | OpenFailed string
  | SeekFailed string
  | DecodeOrReadFailed string
  | EncodePngFailed string

record 'img io =
  raw_ReadRAF :: "string \<Rightarrow> raf_outcome"
  os_Open :: "string \<Rightarrow> bool"
  image_Decode :: "string \<Rightarrow> 'img decode_outcome"
  file_Seek :: "string \<Rightarrow> bool"
  os_ReadFile :: "string \<Rightarrow> nat list option"
  png_Encode :: "'img \<Rightarrow> nat list option"
  base64 :: "nat list \<Rightarrow> string"

text \<open>The body of the \<open>.raf\<close> branch, after the \<open>defer\<close>.\<close>

definition raf_body :: "'img io \<Rightarrow> string \<Rightarrow> (string \<times> read_error option) outcome" where
  "raf_body env filePath =
     (case raw_ReadRAF env filePath of
        RafPanics r \<Rightarrow> Panics r
      | RafNil \<Rightarrow> Returns ([], Some (ExtractJpegFailed filePath))
      | RafData jpeg \<Rightarrow>
          if length jpeg = 0 then Returns ([], Some (ExtractJpegFailed filePath))
          else Returns (''data:image/jpeg;base64,'' @ base64 env jpeg, None))"

text \<open>
  The deferred function: \<open>recover()\<close> stops a panic of the body and sets the named
  results to the empty string and an error that carries the panic's value.
\<close>

definition deferred_recover ::
  "string \<Rightarrow> (string \<times> read_error option) outcome \<Rightarrow> (string \<times> read_error option) outcome"
where
  "deferred_recover filePath body =
     (case body of
        Panics r \<Rightarrow> Returns ([], Some (PanicDecodingRAF filePath r))
      | Returns res \<Rightarrow> Returns res)"

definition fallback_mime :: "string \<Rightarrow> string" where
  "fallback_mime ext =
     (if ext = ''.jpg'' \<or> ext = ''.jpeg'' then ''image/jpeg''
      else if ext = ''.png'' then ''image/png''
      else if ext = ''.gif'' then ''image/gif''
      else if ext = ''.bmp'' then ''image/bmp''
      else if ext = ''.webp'' then ''image/webp''
      else ''application/octet-stream'')"

text \<open>The other formats; nothing recovers a panic here.\<close>

definition decode_body ::
  "'img io \<Rightarrow> string \<Rightarrow> string \<Rightarrow> (string \<times> read_error option) outcome"
where
  "decode_body env ext filePath =
     (if \<not> os_Open env filePath then Returns ([], Some (OpenFailed filePath))
      else
        case image_Decode env filePath of
          DecodePanics r \<Rightarrow> Panics r
        | DecodeFails \<Rightarrow>
            if \<not> file_Seek env filePath then Returns ([], Some (SeekFailed filePath))
            else
              (case os_ReadFile env filePath of
                 None \<Rightarrow> Returns ([], Some (DecodeOrReadFailed filePath))
               | Some data \<Rightarrow>
                   Returns (''data:'' @ fallback_mime ext @ '';base64,'' @ base64 env data, None))
        | Decoded img \<Rightarrow>
            (case png_Encode env img of
               None \<Rightarrow> Returns ([], Some (EncodePngFailed filePath))
             | Some buf \<Rightarrow> Returns (''data:image/png;base64,'' @ base64 env buf, None)))"

definition ReadImage :: "'img io \<Rightarrow> string \<Rightarrow> (string \<times> read_error option) outcome" where
  "ReadImage env filePath =
     (let ext = strings_ToLower (filepath_Ext filePath)
      in if ext = ''.raf'' then deferred_recover filePath (raf_body env filePath)
         else decode_body env ext filePath)"

section \<open>Notions used to state the backend's properties\<close>

text \<open>
  A directory entry's name is not empty, holds no separator and is neither \<open>.\<close> nor
  \<open>..\<close> (\<open>os.ReadDir\<close> returns no such entry). A path is clean when \<open>filepath.Clean\<close>
  leaves it as it is. An element of a cleaned path is not empty, holds no separator and
  is not \<open>.\<close>.
\<close>

definition valid_name :: "string \<Rightarrow> bool" where
  "valid_name n = (n \<noteq> [] \<and> CHR ''/'' \<notin> set n \<and> n \<noteq> ''.'' \<and> n \<noteq> ''..'')"

definition clean_path :: "string \<Rightarrow> bool" where
  "clean_path p = (filepath_Clean p = p)"

definition comp_ok :: "string \<Rightarrow> bool" where
  "comp_ok e = (e \<noteq> [] \<and> CHR ''/'' \<notin> set e \<and> e \<noteq> ''.'')"

fun names_ok :: "fsobj \<Rightarrow> bool"
  and names_ok_entries :: "(string \<times> fsobj) list \<Rightarrow> bool"
where
  "names_ok (Dir (Some es)) = names_ok_entries es"
| "names_ok _ = True"
| "names_ok_entries [] = True"
| "names_ok_entries ((n, obj) # es) = (valid_name n \<and> names_ok obj \<and> names_ok_entries es)"

text \<open>Every directory at or below the object can be listed.\<close>

fun subtree_readable :: "fsobj \<Rightarrow> bool"
  and entries_readable :: "(string \<times> fsobj) list \<Rightarrow> bool"
where
  "subtree_readable File = True"
| "subtree_readable NoStat = False"
| "subtree_readable (Dir None) = False"
| "subtree_readable (Dir (Some es)) = entries_readable es"
| "entries_readable [] = True"
| "entries_readable ((n, obj) # es) = (subtree_readable obj \<and> entries_readable es)"

text \<open>The files directly in a directory whose extension is on the list, in listing order.\<close>

definition direct_images :: "string \<Rightarrow> (string \<times> fsobj) list \<Rightarrow> string list" where
  "direct_images dirPath es =
     map (\<lambda>(n, obj). filepath_Join dirPath n)
       (filter (\<lambda>(n, obj). obj = File \<and> validExtensions (strings_ToLower (filepath_Ext n))) es)"


text \<open>
  In every node of a tree no child is followed by one that \<open>natsort.Compare\<close> puts
  strictly before it (names compared in lower case).
\<close>

fun natural_sorted :: "Folder \<Rightarrow> bool" where
  "natural_sorted (Folder n p cs) =
     (sorted_wrt (\<lambda>a b. \<not> name_less b a) cs \<and> list_all natural_sorted cs)"

text \<open>A backend for the examples: the extractor of embedded previews panics.\<close>

definition panicking_io :: "unit io" where
  "panicking_io =
     \<lparr> raw_ReadRAF = (\<lambda>p. RafPanics ''index out of range''),
       os_Open = (\<lambda>p. True),
       image_Decode = (\<lambda>p. DecodeFails),
       file_Seek = (\<lambda>p. True),
       os_ReadFile = (\<lambda>p. None),
       png_Encode = (\<lambda>i. None),
       base64 = (\<lambda>bs. []) \<rparr>"

section \<open>The viewer: state and collaborators\<close>

text \<open>
  The reactive variables of the viewer component, one field each. Numbers are \<^typ>\<open>int\<close>;
  the empty string stands for JavaScript's falsy string. \<open>slideshowDelay\<close> is \<open>None\<close> for
  \<open>NaN\<close>. \<open>timers\<close> are the interval timers of the window that are still running and
  \<open>nextTimer\<close> the handle the next \<open>setInterval\<close> returns; \<open>slideshowInterval\<close> is the
  handle the component remembers. The zoom level and the console are presentation only
  and left out.
\<close>

datatype SlideshowMode = Sequence | RandomFolder | RandomAll

record state =
  currentFolder :: string
  images :: "string list"
  currentIndex :: int
  currentImageSrc :: string
  isLoading :: bool
  isTreeLoading :: bool
  slideshowActive :: bool
  slideshowInterval :: "nat option"
  slideshowDelay :: "int option"
  slideshowMode :: SlideshowMode
  folderTreeRoot :: "Folder option"
  flatFolderList :: "string list"
  leafFolderList :: "string list"
  treeError :: string
  lastVisitedFolder :: string
  preloadedImageSrc :: string
  preloadedIndex :: int
  preloadedFolder :: string
  timers :: "nat list"
  nextTimer :: nat

definition initial :: state where
  "initial =
     \<lparr> currentFolder = [], images = [], currentIndex = -1, currentImageSrc = [],
       isLoading = False, isTreeLoading = False, slideshowActive = False,
       slideshowInterval = None, slideshowDelay = Some 3000, slideshowMode = Sequence,
       folderTreeRoot = None, flatFolderList = [], leafFolderList = [], treeError = [],
       lastVisitedFolder = [], preloadedImageSrc = [], preloadedIndex = -1,
       preloadedFolder = [], timers = [], nextTimer = 0 \<rparr>"

text \<open>
  The calls into the backend. Each returns a promise: \<open>Inl\<close> is a rejection with its
  message, \<open>Inr\<close> the value. A value of \<open>bindings\<close> is the backend over the files as
  they are at one moment, and every function below takes it as an argument: a run of
  operations with one value is a viewer whose files stay as they are, and a later
  operation with another value is a viewer whose files have changed in between.
\<close>

record bindings =
  listImages :: "string \<Rightarrow> string + string list"
  readImage :: "string \<Rightarrow> string + string"
  listSubfolders :: "string \<Rightarrow> string + Folder"

text \<open>
  \<open>preloadNextImage\<close> is called without \<open>await\<close>. Up to its first call into the backend
  it runs at once; what it stores when the backend has answered is written later, after
  the operation that started it has run to its end. \<open>pending\<close> is that later write; every
  function below returns it next to the state, and \<open>settle\<close> performs it. An operation is
  taken to start only when the writes of the one before are done.
\<close>

datatype pending = NoWrite | SlotWrite string int string

fun settle :: "state \<times> pending \<Rightarrow> state" where
  "settle (s, NoWrite) = s"
| "settle (s, SlotWrite src idx folder) =
     s\<lparr>preloadedImageSrc := src, preloadedIndex := idx, preloadedFolder := folder\<rparr>"

text \<open>
  \<open>Math.random()\<close> is a number in \<open>[0, 1)\<close>: the pair \<open>(p, q)\<close> stands for
  \<open>p / (p + q + 1)\<close>, and \<open>random_index r n\<close> is \<open>Math.floor(Math.random() * n)\<close>. A loop
  that draws again and again takes its draws from a list; when the list is used up
  before the loop ends, the result is \<open>None\<close>.
\<close>

type_synonym draw = "nat \<times> nat"

fun random_index :: "draw \<Rightarrow> nat \<Rightarrow> nat" where
  "random_index (p, q) n = (p * n) div (p + q + 1)"

section \<open>The viewer: helpers\<close>

definition clear_preload :: "state \<Rightarrow> state" where
  "clear_preload s = s\<lparr>preloadedImageSrc := [], preloadedIndex := -1, preloadedFolder := []\<rparr>"

definition stopSlideshow :: "state \<Rightarrow> state" where
  "stopSlideshow s =
     (let s1 = (case slideshowInterval s of
                  Some h \<Rightarrow> s\<lparr>timers := removeAll h (timers s), slideshowInterval := None\<rparr>
                | None \<Rightarrow> s)
      in s1\<lparr>slideshowActive := False\<rparr>)"

text \<open>\<open>Array.indexOf\<close>: the first position, \<open>None\<close> for \<open>-1\<close>.\<close>

fun indexOf :: "'a list \<Rightarrow> 'a \<Rightarrow> nat option" where
  "indexOf [] x = None"
| "indexOf (y # ys) x = (if y = x then Some 0 else map_option Suc (indexOf ys x))"

text \<open>
  The search that \<open>nextImage\<close>, \<open>preloadNextImage\<close> and \<open>hasNextLeafFolder\<close> share: from
  the position after the current folder in the flat list, the first entry that the leaf
  list includes.
\<close>

definition nextLeafFolder :: "state \<Rightarrow> string option" where
  "nextLeafFolder s =
     (case indexOf (flatFolderList s) (currentFolder s) of
        None \<Rightarrow> None
      | Some i \<Rightarrow> find (\<lambda>f. f \<in> set (leafFolderList s)) (drop (i + 1) (flatFolderList s)))"

definition hasNextLeafFolder :: "state \<Rightarrow> bool" where
  "hasNextLeafFolder s = (nextLeafFolder s \<noteq> None)"

fun flattenTree :: "Folder \<Rightarrow> string list" where
  "flattenTree (Folder n p cs) = p # concat (map flattenTree cs)"

fun getLeafFolders :: "Folder \<Rightarrow> string list" where
  "getLeafFolders (Folder n p cs) =
     (if cs = [] then [p] else concat (map getLeafFolders cs))"

section \<open>The viewer: loading and displaying\<close>

text \<open>The part of \<open>preloadNextImage\<close> after the target is known: read it, store it.\<close>

definition fetch :: "bindings \<Rightarrow> string \<Rightarrow> int \<Rightarrow> string \<Rightarrow> pending" where
  "fetch be nextImagePath nextIdx nextFolder =
     (if nextImagePath = [] then NoWrite
      else
        case readImage be nextImagePath of
          Inr data \<Rightarrow> SlotWrite data nextIdx nextFolder
        | Inl err \<Rightarrow> SlotWrite [] (-1) [])"

definition preloadNextImage :: "bindings \<Rightarrow> state \<Rightarrow> state \<times> pending" where
  "preloadNextImage be s =
     (if slideshowActive s \<and> slideshowMode s \<noteq> Sequence then (clear_preload s, NoWrite)
      else
        let s1 = clear_preload s in
        if length (images s1) < 1 \<and> length (flatFolderList s1) < 1 then (s1, NoWrite)
        else
          let nextIdx = currentIndex s1 + 1 in
          if length (images s1) = 0 \<or> int (length (images s1)) \<le> nextIdx then
            (case nextLeafFolder s1 of
               None \<Rightarrow> (s1, NoWrite)
             | Some nextFolder \<Rightarrow>
                 (case listImages be nextFolder of
                    Inl err \<Rightarrow> (s1, NoWrite)
                  | Inr nextFolderImages \<Rightarrow>
                      if length nextFolderImages > 0
                      then (s1, fetch be (nextFolderImages ! 0) 0 nextFolder)
                      else (s1, NoWrite)))
          else if nextIdx < 0 then (s1, NoWrite)
          else (s1, fetch be (images s1 ! nat nextIdx) nextIdx (currentFolder s1)))"

definition displayCurrentImage :: "bindings \<Rightarrow> state \<Rightarrow> state \<times> pending" where
  "displayCurrentImage be s =
     (if 0 \<le> currentIndex s \<and> currentIndex s < int (length (images s)) then
        let s1 = s\<lparr>isLoading := True\<rparr> in
        case readImage be (images s1 ! nat (currentIndex s1)) of
          Inr data \<Rightarrow>
            let (s2, p) = preloadNextImage be (s1\<lparr>currentImageSrc := data\<rparr>)
            in (s2\<lparr>isLoading := False\<rparr>, p)
        | Inl err \<Rightarrow>
            ((clear_preload (s1\<lparr>currentImageSrc := []\<rparr>))\<lparr>isLoading := False\<rparr>, NoWrite)
      else
        let s1 = s\<lparr>currentImageSrc := []\<rparr> in
        if slideshowMode s1 = Sequence then preloadNextImage be s1 else (s1, NoWrite))"

definition loadImagesForPath :: "bindings \<Rightarrow> string \<Rightarrow> state \<Rightarrow> state \<times> pending" where
  "loadImagesForPath be folderPath s =
     (if folderPath = [] then (s, NoWrite)
      else
        let s1 = stopSlideshow (s\<lparr>isLoading := True\<rparr>);
            s2 = clear_preload (s1\<lparr>currentFolder := folderPath\<rparr>)
        in case listImages be folderPath of
             Inr imgs \<Rightarrow>
               let s3 = s2\<lparr>images := imgs,
                           currentIndex := (if length imgs > 0 then 0 else -1)\<rparr>;
                   (s4, p) = displayCurrentImage be s3
               in (s4\<lparr>isLoading := False\<rparr>, p)
           | Inl err \<Rightarrow>
               (s2\<lparr>images := [], currentIndex := -1, currentImageSrc := [],
                   isLoading := False\<rparr>, NoWrite))"

definition loadFolderTree :: "bindings \<Rightarrow> string \<Rightarrow> state \<Rightarrow> state" where
  "loadFolderTree be basePath s =
     (if basePath = [] then s
      else
        let s1 = s\<lparr>isTreeLoading := True, treeError := [], folderTreeRoot := None,
                    flatFolderList := [], leafFolderList := []\<rparr>
        in case listSubfolders be basePath of
             Inr tree \<Rightarrow>
               s1\<lparr>folderTreeRoot := Some tree, flatFolderList := flattenTree tree,
                   leafFolderList := getLeafFolders tree, isTreeLoading := False\<rparr>
           | Inl err \<Rightarrow>
               s1\<lparr>treeError := ''Failed to load folder tree: '' @ err,
                   isTreeLoading := False\<rparr>)"

text \<open>\<open>selectFolder\<close>, the Browse button; \<open>dialog\<close> is what the folder dialog answers.\<close>

definition selectFolder :: "bindings \<Rightarrow> string + string \<Rightarrow> state \<Rightarrow> state \<times> pending" where
  "selectFolder be dialog s =
     (let s1 = s\<lparr>treeError := [], folderTreeRoot := None, images := [], currentIndex := -1,
                 currentImageSrc := [], currentFolder := [], flatFolderList := [],
                 isLoading := False, isTreeLoading := False\<rparr>
      in case dialog of
           Inl err \<Rightarrow> (s1\<lparr>treeError := ''Failed to select folder.''\<rparr>, NoWrite)
         | Inr selectedPath \<Rightarrow>
             if selectedPath \<noteq> [] then
               let (s2, p) = loadImagesForPath be selectedPath s1
               in (loadFolderTree be selectedPath s2, p)
             else (s1, NoWrite))"

definition handleFolderSelected :: "bindings \<Rightarrow> string \<Rightarrow> state \<Rightarrow> state \<times> pending" where
  "handleFolderSelected be selectedPath s =
     (if selectedPath = [] then (s, NoWrite)
      else if selectedPath = currentFolder s then (s, NoWrite)
      else
        let s1 = (if currentFolder s \<noteq> [] \<and> currentFolder s \<noteq> selectedPath
                  then s\<lparr>lastVisitedFolder := currentFolder s\<rparr> else s);
            (s2, p) = loadImagesForPath be selectedPath s1
        in (clear_preload s2, p))"

definition goToLastVisitedFolder :: "bindings \<Rightarrow> state \<Rightarrow> state \<times> pending" where
  "goToLastVisitedFolder be s =
     (if lastVisitedFolder s = [] \<or> isTreeLoading s then (s, NoWrite)
      else handleFolderSelected be (lastVisitedFolder s) s)"

section \<open>The viewer: moving through the images\<close>

definition nextImage :: "bindings \<Rightarrow> state \<Rightarrow> state \<times> pending" where
  "nextImage be s =
     (if length (images s) = 0 \<and> length (flatFolderList s) = 0 then (s, NoWrite)
      else
        let targetIdx = currentIndex s + 1 in
        if length (images s) = 0 \<or> int (length (images s)) \<le> targetIdx then
          (case nextLeafFolder s of
             None \<Rightarrow> (stopSlideshow s, NoWrite)
           | Some targetFolder \<Rightarrow>
               if targetFolder = preloadedFolder s \<and> 0 = preloadedIndex s
                  \<and> preloadedImageSrc s \<noteq> []
               then
                 let s1 = s\<lparr>isLoading := True, currentImageSrc := preloadedImageSrc s,
                             currentFolder := targetFolder\<rparr>
                 in case listImages be targetFolder of
                      Inl err \<Rightarrow> (s1, NoWrite)
                    | Inr imgs \<Rightarrow>
                        let (s2, p) = preloadNextImage be
                                        (clear_preload (s1\<lparr>images := imgs, currentIndex := 0\<rparr>))
                        in (s2\<lparr>isLoading := False\<rparr>, p)
               else handleFolderSelected be targetFolder s)
        else if slideshowMode s = Sequence \<and> targetIdx = preloadedIndex s
                \<and> currentFolder s = preloadedFolder s \<and> preloadedImageSrc s \<noteq> []
        then
          let (s2, p) = preloadNextImage be
                          (clear_preload (s\<lparr>isLoading := True,
                             currentImageSrc := preloadedImageSrc s,
                             currentIndex := targetIdx\<rparr>))
          in (s2\<lparr>isLoading := False\<rparr>, p)
        else displayCurrentImage be (s\<lparr>currentIndex := targetIdx\<rparr>))"

definition prevImage :: "bindings \<Rightarrow> state \<Rightarrow> state \<times> pending" where
  "prevImage be s =
     (if length (images s) = 0 then (s, NoWrite)
      else
        let s1 = clear_preload s;
            targetIdx = currentIndex s1 - 1;
            targetIdx' = (if targetIdx < 0 then int (length (images s1)) - 1 else targetIdx)
        in displayCurrentImage be (s1\<lparr>currentIndex := targetIdx'\<rparr>))"

text \<open>The \<open>do ... while\<close> loops that draw until the draw differs from the current one.\<close>

fun draw_other_index :: "nat \<Rightarrow> int \<Rightarrow> draw list \<Rightarrow> nat option" where
  "draw_other_index n current [] = None"
| "draw_other_index n current (r # rs) =
     (let randomIndex = random_index r n
      in if int randomIndex = current then draw_other_index n current rs
         else Some randomIndex)"

fun draw_other_folder :: "string list \<Rightarrow> string \<Rightarrow> draw list \<Rightarrow> string option" where
  "draw_other_folder leaves current [] = None"
| "draw_other_folder leaves current (r # rs) =
     (let randomFolder = leaves ! random_index r (length leaves)
      in if randomFolder = current then draw_other_folder leaves current rs
         else Some randomFolder)"

definition displayRandomImageInFolder ::
  "bindings \<Rightarrow> draw list \<Rightarrow> state \<Rightarrow> (state \<times> pending) option"
where
  "displayRandomImageInFolder be rs s =
     (if length (images s) < 1 then Some (s, NoWrite)
      else if length (images s) = 1
      then Some (displayCurrentImage be (s\<lparr>currentIndex := 0\<rparr>))
      else
        case draw_other_index (length (images s)) (currentIndex s) rs of
          None \<Rightarrow> None
        | Some randomIndex \<Rightarrow>
            Some (displayCurrentImage be (s\<lparr>currentIndex := int randomIndex\<rparr>)))"

definition displayRandomImageInAllFolders :: "bindings \<Rightarrow> draw \<Rightarrow> draw \<Rightarrow> state \<Rightarrow> state" where
  "displayRandomImageInAllFolders be r1 r2 s =
     (if length (leafFolderList s) = 0 then s
      else
        let s1 = s\<lparr>isLoading := True\<rparr>;
            randomFolderPath =
              leafFolderList s1 ! random_index r1 (length (leafFolderList s1))
        in case listImages be randomFolderPath of
             Inl err \<Rightarrow>
               s1\<lparr>currentImageSrc := [], images := [], currentIndex := -1,
                   isLoading := False\<rparr>
           | Inr randomFolderImages \<Rightarrow>
               if length randomFolderImages > 0 then
                 let randomImageIndex = random_index r2 (length randomFolderImages);
                     s2 = s1\<lparr>currentFolder := randomFolderPath,
                             images := randomFolderImages,
                             currentIndex := int randomImageIndex\<rparr>
                 in case readImage be (randomFolderImages ! randomImageIndex) of
                      Inr data \<Rightarrow> s2\<lparr>currentImageSrc := data, isLoading := False\<rparr>
                    | Inl err \<Rightarrow>
                        s2\<lparr>currentImageSrc := [], images := [], currentIndex := -1,
                            isLoading := False\<rparr>
               else s1\<lparr>isLoading := False\<rparr>)"

section \<open>The viewer: jumps between folders\<close>

definition goToRandomFolder :: "bindings \<Rightarrow> draw list \<Rightarrow> state \<Rightarrow> (state \<times> pending) option" where
  "goToRandomFolder be rs s =
     (if length (leafFolderList s) = 0 \<or> isTreeLoading s then Some (s, NoWrite)
      else if length (leafFolderList s) > 1 then
        (case draw_other_folder (leafFolderList s) (currentFolder s) rs of
           None \<Rightarrow> None
         | Some randomFolder \<Rightarrow>
             Some (if randomFolder \<noteq> [] then handleFolderSelected be randomFolder s
                   else (s, NoWrite)))
      else
        let randomFolder = leafFolderList s ! 0
        in Some (if randomFolder \<noteq> [] then handleFolderSelected be randomFolder s
                 else (s, NoWrite)))"

definition goToNextLeafFolder :: "bindings \<Rightarrow> state \<Rightarrow> state \<times> pending" where
  "goToNextLeafFolder be s =
     (if length (leafFolderList s) < 2 \<or> isTreeLoading s then (s, NoWrite)
      else
        case indexOf (leafFolderList s) (currentFolder s) of
          None \<Rightarrow> handleFolderSelected be (leafFolderList s ! 0) s
        | Some currentLeafIndex \<Rightarrow>
            let nextLeafIndex = currentLeafIndex + 1
            in if nextLeafIndex < length (leafFolderList s)
               then handleFolderSelected be (leafFolderList s ! nextLeafIndex) s
               else (s, NoWrite))"

definition goToPrevLeafFolder :: "bindings \<Rightarrow> state \<Rightarrow> state \<times> pending" where
  "goToPrevLeafFolder be s =
     (if length (leafFolderList s) < 2 \<or> isTreeLoading s then (s, NoWrite)
      else
        case indexOf (leafFolderList s) (currentFolder s) of
          None \<Rightarrow>
            handleFolderSelected be (leafFolderList s ! (length (leafFolderList s) - 1)) s
        | Some currentLeafIndex \<Rightarrow>
            if 0 \<le> int currentLeafIndex - 1
            then handleFolderSelected be (leafFolderList s ! (currentLeafIndex - 1)) s
            else (s, NoWrite))"

section \<open>The viewer: the slideshow\<close>

text \<open>
  The action of a slideshow step, by mode; the same switch runs once in
  \<open>startSlideshow\<close> and then in the function given to \<open>setInterval\<close>.
\<close>

definition slideshow_action ::
  "bindings \<Rightarrow> draw list \<Rightarrow> draw \<Rightarrow> draw \<Rightarrow> state \<Rightarrow> (state \<times> pending) option"
where
  "slideshow_action be rs r1 r2 s =
     (case slideshowMode s of
        Sequence \<Rightarrow> Some (nextImage be s)
      | RandomFolder \<Rightarrow> displayRandomImageInFolder be rs s
      | RandomAll \<Rightarrow> Some (displayRandomImageInAllFolders be r1 r2 s, NoWrite))"

definition startSlideshow ::
  "bindings \<Rightarrow> draw list \<Rightarrow> draw \<Rightarrow> draw \<Rightarrow> state \<Rightarrow> (state \<times> pending) option"
where
  "startSlideshow be rs r1 r2 s =
     (let s1 = (case slideshowDelay s of
                  None \<Rightarrow> s\<lparr>slideshowDelay := Some 500\<rparr>
                | Some d \<Rightarrow> if d < 500 then s\<lparr>slideshowDelay := Some 500\<rparr> else s)
      in if slideshowActive s1 then Some (s1, NoWrite)
         else if slideshowMode s1 = Sequence \<and> length (images s1) < 1
                 \<and> length (flatFolderList s1) < 2 then Some (s1, NoWrite)
         else if slideshowMode s1 = RandomFolder \<and> length (images s1) < 1
         then Some (s1, NoWrite)
         else if slideshowMode s1 = RandomAll \<and> length (leafFolderList s1) < 1
         then Some (s1, NoWrite)
         else
           let s2 = (if slideshowMode s1 \<noteq> Sequence then clear_preload s1 else s1);
               s3 = s2\<lparr>slideshowActive := True\<rparr>
           in case slideshow_action be rs r1 r2 s3 of
                None \<Rightarrow> None
              | Some (s4, p) \<Rightarrow>
                  Some (s4\<lparr>slideshowInterval := Some (nextTimer s4),
                           timers := nextTimer s4 # timers s4,
                           nextTimer := nextTimer s4 + 1\<rparr>, p))"

definition toggleSlideshow ::
  "bindings \<Rightarrow> draw list \<Rightarrow> draw \<Rightarrow> draw \<Rightarrow> state \<Rightarrow> (state \<times> pending) option"
where
  "toggleSlideshow be rs r1 r2 s =
     (if slideshowActive s then Some (stopSlideshow s, NoWrite)
      else startSlideshow be rs r1 r2 s)"

text \<open>A tick of a running interval timer; without a running timer nothing happens.\<close>

definition tick ::
  "bindings \<Rightarrow> draw list \<Rightarrow> draw \<Rightarrow> draw \<Rightarrow> state \<Rightarrow> (state \<times> pending) option"
where
  "tick be rs r1 r2 s =
     (if timers s = [] then Some (s, NoWrite) else slideshow_action be rs r1 r2 s)"

section \<open>The viewer: operations and reachable states\<close>

text \<open>
  What the user and the timer can do, each run to its end. The buttons and the keyboard
  call the same functions; the keyboard does so whatever buttons are disabled, so no
  guard of the template is assumed. The mode and the delay are bound to form fields.
\<close>

datatype operation =
    Browse "string + string"
  | TreeClick string
  | NextImage
  | PrevImage
  | LastVisited
  | NextLeaf
  | PrevLeaf
  | RandomLeaf "draw list"
  | Start "draw list" draw draw
  | Stop
  | Toggle "draw list" draw draw
  | Tick "draw list" draw draw
  | SetMode SlideshowMode
  | SetDelay "int option"

fun run :: "bindings \<Rightarrow> operation \<Rightarrow> state \<Rightarrow> state option" where
  "run be (Browse dialog) s = Some (settle (selectFolder be dialog s))"
| "run be (TreeClick path) s = Some (settle (handleFolderSelected be path s))"
| "run be NextImage s = Some (settle (nextImage be s))"
| "run be PrevImage s = Some (settle (prevImage be s))"
| "run be LastVisited s = Some (settle (goToLastVisitedFolder be s))"
| "run be NextLeaf s = Some (settle (goToNextLeafFolder be s))"
| "run be PrevLeaf s = Some (settle (goToPrevLeafFolder be s))"
| "run be (RandomLeaf rs) s = map_option settle (goToRandomFolder be rs s)"
| "run be (Start rs r1 r2) s = map_option settle (startSlideshow be rs r1 r2 s)"
| "run be Stop s = Some (stopSlideshow s)"
| "run be (Toggle rs r1 r2) s = map_option settle (toggleSlideshow be rs r1 r2 s)"
| "run be (Tick rs r1 r2) s = map_option settle (tick be rs r1 r2 s)"
| "run be (SetMode m) s = Some (s\<lparr>slideshowMode := m\<rparr>)"
| "run be (SetDelay d) s = Some (s\<lparr>slideshowDelay := d\<rparr>)"

inductive reachable :: "bindings \<Rightarrow> state \<Rightarrow> bool" for be :: bindings where
  start: "reachable be initial"
| step: "reachable be s \<Longrightarrow> run be op s = Some s' \<Longrightarrow> reachable be s'"

section \<open>Notions used to state the viewer's properties\<close>

text \<open>The invariant of the position.\<close>

definition position_ok :: "state \<Rightarrow> bool" where
  "position_ok s =
     ((images s \<noteq> [] \<longrightarrow> 0 \<le> currentIndex s \<and> currentIndex s < int (length (images s)))
      \<and> (currentIndex s = -1 \<longleftrightarrow> images s = []))"

text \<open>The image list, when not empty, is the listing of the current folder.\<close>

definition listing_ok :: "bindings \<Rightarrow> state \<Rightarrow> bool" where
  "listing_ok be s = (images s = [] \<or> listImages be (currentFolder s) = Inr (images s))"

text \<open>A filled preload slot holds the image at its index in the listing of its folder.\<close>

definition slot_holds :: "bindings \<Rightarrow> string \<Rightarrow> int \<Rightarrow> string \<Rightarrow> bool" where
  "slot_holds be src idx folder =
     (src = [] \<or>
      (case listImages be folder of
         Inl err \<Rightarrow> False
       | Inr imgs \<Rightarrow> 0 \<le> idx \<and> nat idx < length imgs
                      \<and> readImage be (imgs ! nat idx) = Inr src))"

definition slot_ok :: "bindings \<Rightarrow> state \<Rightarrow> bool" where
  "slot_ok be s = slot_holds be (preloadedImageSrc s) (preloadedIndex s) (preloadedFolder s)"

fun pending_ok :: "bindings \<Rightarrow> pending \<Rightarrow> bool" where
  "pending_ok be NoWrite = True"
| "pending_ok be (SlotWrite src idx folder) = slot_holds be src idx folder"

text \<open>
  What holds between two operations: the three above, and no tree is being loaded.
  \<open>result_ok\<close> is the same for a state with the write still to come.
\<close>

definition inv :: "bindings \<Rightarrow> state \<Rightarrow> bool" where
  "inv be s = (position_ok s \<and> listing_ok be s \<and> slot_ok be s \<and> \<not> isTreeLoading s)"

definition result_ok :: "bindings \<Rightarrow> state \<times> pending \<Rightarrow> bool" where
  "result_ok be x = (inv be (fst x) \<and> pending_ok be (snd x))"

text \<open>
  The saturating end: the next index is past the image list, no leaf folder follows the
  current folder in the flat list, and there is something to navigate.
\<close>

definition at_end :: "state \<Rightarrow> bool" where
  "at_end s =
     (int (length (images s)) \<le> currentIndex s + 1 \<and> nextLeafFolder s = None
      \<and> (images s \<noteq> [] \<or> flatFolderList s \<noteq> []))"

section \<open>An album for the examples\<close>

text \<open>
  Four leaf folders below \<open>/root\<close>: two images, one image, none, one image. Reading an
  image always succeeds.
\<close>

definition album_tree :: Folder where
  "album_tree =
     Folder ''root'' ''/root''
       [Folder ''2024-01'' ''/root/2024-01'' [],
        Folder ''2024-02'' ''/root/2024-02'' [],
        Folder ''2024-03'' ''/root/2024-03'' [],
        Folder ''2024-04'' ''/root/2024-04'' []]"

definition album :: bindings where
  "album =
     \<lparr> listImages = (\<lambda>p.
         if p = ''/root'' then Inr []
         else if p = ''/root/2024-01'' then Inr [''/root/2024-01/a.jpg'', ''/root/2024-01/b.jpg'']
         else if p = ''/root/2024-02'' then Inr [''/root/2024-02/c.jpg'']
         else if p = ''/root/2024-03'' then Inr []
         else if p = ''/root/2024-04'' then Inr [''/root/2024-04/d.jpg'']
         else Inl ''no such directory''),
       readImage = (\<lambda>p. Inr (''data:'' @ p)),
       listSubfolders = (\<lambda>p.
         if p = ''/root'' then Inr album_tree else Inl ''failed to stat base path'') \<rparr>"

fun run_all :: "bindings \<Rightarrow> operation list \<Rightarrow> state \<Rightarrow> state option" where
  "run_all be [] s = Some s"
| "run_all be (op # ops) s =
     (case run be op s of None \<Rightarrow> None | Some s' \<Rightarrow> run_all be ops s')"

text \<open>
  The album after the only image of \<open>/root/2024-02\<close> has been removed: the listing of
  that folder is empty, everything else answers as before.
\<close>

definition album_emptied :: bindings where
  "album_emptied =
     album\<lparr>listImages := (\<lambda>p. if p = ''/root/2024-02'' then Inr [] else listImages album p)\<rparr>"

text \<open>The state of the viewer on the album after a list of operations from the start.\<close>

definition album_after :: "operation list \<Rightarrow> state" where
  "album_after ops = (case run_all album ops initial of None \<Rightarrow> initial | Some s \<Rightarrow> s)"

section \<open>Sorting\<close>

lemma mset_shift_front: "mset (shift_front lt x ys) = add_mset x (mset ys)"
  by (induction ys) auto

lemma mset_foldl_shift: "mset (foldl (\<lambda>acc x. shift_front lt x acc) acc xs) = mset acc + mset xs"
  by (induction xs arbitrary: acc) (auto simp: mset_shift_front)

lemma mset_sort_Slice: "mset (sort_Slice lt xs) = mset xs"
  by (simp add: sort_Slice_def mset_foldl_shift)

lemma desc_shift_front:
  fixes key :: "'a \<Rightarrow> 'k::linorder"
  shows "sorted_wrt (\<lambda>a b. key b \<le> key a) ys \<Longrightarrow>
     sorted_wrt (\<lambda>a b. key b \<le> key a) (shift_front (\<lambda>a b. key a < key b) x ys)"
proof (induction ys)
  case Nil
  then show ?case by simp
next
  case (Cons y ys)
  have "set (shift_front (\<lambda>a b. key a < key b) x ys) = insert x (set ys)"
    using mset_shift_front[of "\<lambda>a b. key a < key b" x ys]
    by (metis set_mset_add_mset_insert set_mset_mset)
  with Cons show ?case by (auto simp: less_imp_le)
qed

lemma desc_foldl_shift:
  fixes key :: "'a \<Rightarrow> 'k::linorder"
  shows "sorted_wrt (\<lambda>a b. key b \<le> key a) acc \<Longrightarrow>
     sorted_wrt (\<lambda>a b. key b \<le> key a) (foldl (\<lambda>acc x. shift_front (\<lambda>a b. key a < key b) x acc) acc xs)"
  by (induction xs arbitrary: acc) (auto simp: desc_shift_front)

lemma sorted_sort_Slice_key:
  fixes key :: "'a \<Rightarrow> 'k::linorder"
  shows "sorted_wrt (\<lambda>a b. key a \<le> key b) (sort_Slice (\<lambda>a b. key a < key b) xs)"
  unfolding sort_Slice_def sorted_wrt_rev
  using desc_foldl_shift[of key "[]" xs] by simp

lemma sort_Strings_sort: "sort_Strings xs = sort xs"
proof -
  have "sorted_wrt (\<lambda>a b. id a \<le> id b) (sort_Slice (\<lambda>a b. id a < id b) xs)"
    by (rule sorted_sort_Slice_key)
  then have "sorted (sort_Strings xs)" by (simp add: sort_Strings_def)
  moreover have "mset (sort_Strings xs) = mset xs" by (simp add: sort_Strings_def mset_sort_Slice)
  ultimately show ?thesis by (metis properties_for_sort)
qed

section \<open>Paths\<close>

lemma split_sep_nonempty: "split_sep p \<noteq> []"
  by (induction p) (auto split: list.splits)

lemma split_sep_append: "split_sep (a @ CHR ''/'' # b) = split_sep a @ split_sep b"
  by (induction a) (auto simp: split_sep_nonempty split: list.splits)

lemma split_sep_plain: "CHR ''/'' \<notin> set n \<Longrightarrow> split_sep n = [n]"
  by (induction n) auto

lemma split_sep_no_sep: "e \<in> set (split_sep p) \<Longrightarrow> CHR ''/'' \<notin> set e"
  by (induction p arbitrary: e) (auto split: if_splits list.splits)

lemma elements_ok: "e \<in> set (path_elements p) \<Longrightarrow> comp_ok e"
  by (auto simp: path_elements_def comp_ok_def dest: split_sep_no_sep)

lemma elements_snoc:
  "valid_name n \<Longrightarrow> path_elements (d @ CHR ''/'' # n) = path_elements d @ [n]"
  by (simp add: path_elements_def split_sep_append split_sep_plain valid_name_def)

lemma elements_trail: "path_elements (d @ ''/'') = path_elements d"
  by (simp add: path_elements_def split_sep_append)

lemma resolve_append:
  "resolve r st (es @ fs) = resolve r (rev (resolve r st es)) fs"
  by (induction r st es rule: resolve.induct) (auto split: list.splits)

lemma resolve_set: "set (resolve r st es) \<subseteq> set st \<union> set es"
  by (induction r st es rule: resolve.induct) (auto split: list.splits if_splits)

lemma join_sep_snoc: "out \<noteq> [] \<Longrightarrow> join_sep (out @ [n]) = join_sep out @ CHR ''/'' # n"
  by (induction out rule: join_sep.induct) auto

lemma split_join:
  "out \<noteq> [] \<Longrightarrow> \<forall>e\<in>set out. CHR ''/'' \<notin> set e \<Longrightarrow> split_sep (join_sep out) = out"
proof (induction out rule: join_sep.induct)
  case (3 e f es)
  then show ?case using split_sep_append[of e "join_sep (f # es)"]
    by (simp add: split_sep_plain)
qed (auto simp: split_sep_plain)

lemma elements_render:
  "\<forall>e\<in>set out. comp_ok e \<Longrightarrow> path_elements (render r out) = out"
proof (cases "out = []")
  case True
  then show ?thesis by (simp add: render_def path_elements_def)
next
  case False
  assume ok: "\<forall>e\<in>set out. comp_ok e"
  then have s: "split_sep (join_sep out) = out"
    using False by (intro split_join) (auto simp: comp_ok_def)
  have "filter (\<lambda>e. e \<noteq> [] \<and> e \<noteq> ''.'') out = out"
    using ok by (auto simp: comp_ok_def intro: filter_True)
  then show ?thesis using False s by (simp add: render_def path_elements_def)
qed

lemma join_sep_hd:
  "out \<noteq> [] \<Longrightarrow> \<forall>e\<in>set out. comp_ok e \<Longrightarrow> join_sep out \<noteq> [] \<and> hd (join_sep out) \<noteq> CHR ''/''"
proof (induction out rule: join_sep.induct)
  case 1
  then show ?case by simp
next
  case (2 e)
  then show ?case by (cases e) (auto simp: comp_ok_def)
next
  case (3 e f es)
  then show ?case by (cases e) (auto simp: comp_ok_def)
qed

lemma rooted_render:
  "\<forall>e\<in>set out. comp_ok e \<Longrightarrow> render r out \<noteq> [] \<and> is_rooted (render r out) = r"
proof (cases "out = []")
  case True
  then show ?thesis by (simp add: render_def is_rooted_def)
next
  case False
  assume "\<forall>e\<in>set out. comp_ok e"
  then have "join_sep out \<noteq> [] \<and> hd (join_sep out) \<noteq> CHR ''/''"
    using False by (intro join_sep_hd)
  then show ?thesis using False
    by (cases "join_sep out") (auto simp: render_def is_rooted_def)
qed

lemma clean_form:
  assumes "clean_path d"
  obtains out where "d = render (is_rooted d) out" "\<forall>e\<in>set out. comp_ok e"
    "resolve (is_rooted d) [] out = out" "d \<noteq> []"
proof -
  have ne: "d \<noteq> []" using assms by (auto simp: clean_path_def filepath_Clean_def)
  let ?out = "resolve (is_rooted d) [] (path_elements d)"
  have d: "d = render (is_rooted d) ?out"
    using assms ne by (simp add: clean_path_def filepath_Clean_def)
  have ok: "\<forall>e\<in>set ?out. comp_ok e"
    using resolve_set[of "is_rooted d" "[]" "path_elements d"] elements_ok by auto
  have "path_elements d = ?out" using elements_render[OF ok, of "is_rooted d"] d by simp
  then have "resolve (is_rooted d) [] ?out = ?out" by simp
  then show ?thesis using that d ok ne by blast
qed

lemma clean_render:
  "\<forall>e\<in>set out. comp_ok e \<Longrightarrow> resolve r [] out = out \<Longrightarrow> clean_path (render r out)"
  using rooted_render[of out r] elements_render[of out r]
  by (simp add: clean_path_def filepath_Clean_def)

lemma render_snoc:
  "render r (out @ [n]) =
     (if out = [] then (if r then CHR ''/'' # n else n) else render r out @ CHR ''/'' # n)"
  by (auto simp: render_def join_sep_snoc)

lemma render_Nil_cases: "render r [] = (if r then ''/'' else ''.'')"
  by (simp add: render_def)

lemma Join_render:
  assumes "d = render (is_rooted d) out" "\<forall>e\<in>set out. comp_ok e"
    "resolve (is_rooted d) [] out = out" "d \<noteq> []" "valid_name n"
  shows "filepath_Join d n = render (is_rooted d) (out @ [n])"
    and "resolve (is_rooted d) [] (out @ [n]) = out @ [n]"
proof -
  have el: "path_elements d = out" using elements_render[OF assms(2), of "is_rooted d"] assms(1) by simp
  have r: "is_rooted (d @ CHR ''/'' # n) = is_rooted d"
    using assms(4) by (cases d) (auto simp: is_rooted_def)
  show res: "resolve (is_rooted d) [] (out @ [n]) = out @ [n]"
    using assms(3,5) by (simp add: resolve_append valid_name_def)
  show "filepath_Join d n = render (is_rooted d) (out @ [n])"
    using assms(4,5) el r res
    by (simp add: filepath_Join_def filepath_Clean_def elements_snoc)
qed

lemma Join_cases:
  assumes "clean_path d" "valid_name n"
  shows "filepath_Join d n =
     (if d = ''/'' then CHR ''/'' # n else if d = ''.'' then n else d @ CHR ''/'' # n)"
proof -
  obtain out where o: "d = render (is_rooted d) out" "\<forall>e\<in>set out. comp_ok e"
    "resolve (is_rooted d) [] out = out" "d \<noteq> []"
    using clean_form[OF assms(1)] by blast
  have j: "filepath_Join d n = render (is_rooted d) (out @ [n])"
    using Join_render(1)[OF o assms(2)] .
  show ?thesis
  proof (cases "out = []")
    case True
    have r: "render (is_rooted d) [] = (if is_rooted d then ''/'' else ''.'')"
      by (simp add: render_def)
    have "d = (if is_rooted d then ''/'' else ''.'')" using o(1) True r by metis
    then show ?thesis using j True
      by (cases "is_rooted d") (auto simp: render_def is_rooted_def)
  next
    case False
    have "d \<noteq> ''/''" "d \<noteq> ''.''"
      using elements_render[OF o(2), of "is_rooted d"] o(1) False
      by (auto simp: path_elements_def)
    then show ?thesis using j False o(1) by (simp add: render_snoc)
  qed
qed

lemma clean_Join:
  assumes "clean_path d" "valid_name n"
  shows "clean_path (filepath_Join d n)"
proof -
  obtain out where o: "d = render (is_rooted d) out" "\<forall>e\<in>set out. comp_ok e"
    "resolve (is_rooted d) [] out = out" "d \<noteq> []"
    using clean_form[OF assms(1)] by blast
  have ok: "\<forall>e\<in>set (out @ [n]). comp_ok e"
    using o(2) assms(2) by (auto simp: comp_ok_def valid_name_def)
  show ?thesis
    using clean_render[OF ok Join_render(2)[OF o assms(2)]] Join_render(1)[OF o assms(2)]
    by simp
qed

lemma Clean_root: "filepath_Clean ''/'' = ''/''"
  by (simp add: filepath_Clean_def is_rooted_def path_elements_def render_def)

lemma Clean_trail:
  assumes "clean_path d"
  shows "filepath_Clean (d @ ''/'') = d"
proof -
  have ne: "d \<noteq> []" using assms by (auto simp: clean_path_def filepath_Clean_def)
  then have "is_rooted (d @ ''/'') = is_rooted d" by (cases d) (auto simp: is_rooted_def)
  then show ?thesis using assms ne
    by (simp add: clean_path_def filepath_Clean_def elements_trail)
qed

lemma Dir_Join:
  assumes "clean_path d" "valid_name n"
  shows "filepath_Dir (filepath_Join d n) = d"
proof -
  have cut: "rev (dropWhile (\<lambda>c. c \<noteq> CHR ''/'') (rev (p @ CHR ''/'' # n))) = p @ ''/''" for p
    using assms(2) by (auto simp: valid_name_def dropWhile_append3)
  have cut0: "rev (dropWhile (\<lambda>c. c \<noteq> CHR ''/'') (rev n)) = []"
    using assms(2) by (auto simp: valid_name_def)
  show ?thesis
  proof (cases "d = ''/''")
    case True
    then show ?thesis using cut[of "[]"] Join_cases[OF assms]
      by (simp add: filepath_Dir_def Clean_root)
  next
    case nr: False
    show ?thesis
    proof (cases "d = ''.''")
      case True
      then show ?thesis using cut0 Join_cases[OF assms]
        by (simp add: filepath_Dir_def filepath_Clean_def)
    next
      case False
      then show ?thesis using nr cut[of d] Join_cases[OF assms] Clean_trail[OF assms(1)]
        by (simp add: filepath_Dir_def)
    qed
  qed
qed

lemma child_props:
  assumes "clean_path d" "valid_name n"
  shows "filepath_Join d n \<noteq> d \<and> length d \<le> length (filepath_Join d n)
     \<and> filepath_Join d n \<noteq> ''.'' \<and> filepath_Join d n \<noteq> ''/''"
  using assms(2) Join_cases[OF assms] by (cases d; cases n) (auto simp: valid_name_def)

lemma below_props:
  assumes "clean_path p" "valid_name n" "p \<noteq> ''.''" "p \<noteq> ''/''"
  shows "filepath_Join p n = p @ CHR ''/'' # n"
  using Join_cases[OF assms(1,2)] assms(3,4) by simp

lemma ext_scan_append:
  "CHR ''/'' \<notin> set xs \<Longrightarrow> ext_scan (xs @ CHR ''/'' # r) acc = ext_scan xs acc"
  by (induction xs acc rule: ext_scan.induct) auto

lemma Ext_Join:
  assumes "clean_path q" "valid_name n"
  shows "filepath_Ext (filepath_Join q n) = filepath_Ext n"
proof -
  have "ext_scan (rev n @ CHR ''/'' # r) [] = ext_scan (rev n) []" for r
    using assms(2) by (simp add: valid_name_def ext_scan_append)
  from this[of "[]"] this[of "rev q"] show ?thesis
    using Join_cases[OF assms] by (auto simp: filepath_Ext_def)
qed

section \<open>The walk of ListImages\<close>

lemma walk_fails_or_not:
  "(subtree_readable obj \<longrightarrow> (\<exists>fs. walkDir d p obj acc = Inr fs)) \<and>
   (\<not> subtree_readable obj \<longrightarrow> (\<exists>e. walkDir d p obj acc = Inl e))"
  "(entries_readable es \<longrightarrow> (\<exists>fs. walkEntries d p es acc = Inr fs)) \<and>
   (\<not> entries_readable es \<longrightarrow> (\<exists>e. walkEntries d p es acc = Inl e))"
proof (induction d p obj acc and d p es acc rule: walkDir_walkEntries.induct)
  case (6 dirPath path name obj dirs imageFiles)
  show ?case
  proof (cases "walkDir dirPath (filepath_Join path name) obj imageFiles")
    case (Inl a)
    then show ?thesis using 6(1) by auto
  next
    case (Inr b)
    then show ?thesis using 6(1) 6(2)[OF Inr] by auto
  qed
qed auto

lemma walk_below:
  "clean_path p \<Longrightarrow> p \<noteq> d \<Longrightarrow> length d \<le> length p \<Longrightarrow> p \<noteq> ''.'' \<Longrightarrow> p \<noteq> ''/'' \<Longrightarrow>
     names_ok obj \<Longrightarrow> subtree_readable obj \<Longrightarrow> entry_IsDir obj \<Longrightarrow>
     walkDir d p obj acc = Inr acc"
  "clean_path p \<Longrightarrow> p \<noteq> d \<Longrightarrow> length d \<le> length p \<Longrightarrow> p \<noteq> ''.'' \<Longrightarrow> p \<noteq> ''/'' \<Longrightarrow>
     names_ok_entries es \<Longrightarrow> entries_readable es \<Longrightarrow>
     walkEntries d p es acc = Inr acc"
proof (induction d p obj acc and d p es acc rule: walkDir_walkEntries.induct)
  case (6 dirPath path name obj dirs imageFiles)
  note here = 6(3-7)
  have vn: "valid_name name" using 6(8) by simp
  have eq: "filepath_Join path name = path @ CHR ''/'' # name"
    using below_props[OF here(1) vn here(4,5)] .
  have "Suc 0 \<le> length name" using vn by (cases name) (simp_all add: valid_name_def)
  then have big: "2 \<le> length (filepath_Join path name)"
    "length path < length (filepath_Join path name)"
    unfolding eq by simp_all
  have j: "clean_path (filepath_Join path name)" "filepath_Join path name \<noteq> dirPath"
    "length dirPath \<le> length (filepath_Join path name)"
    "filepath_Join path name \<noteq> ''.''" "filepath_Join path name \<noteq> ''/''"
    using clean_Join[OF here(1) vn] here(3) big by auto
  have first: "walkDir dirPath (filepath_Join path name) obj imageFiles = Inr imageFiles"
  proof (cases "entry_IsDir obj")
    case True
    then show ?thesis using 6(1)[OF j] 6(8,9) by simp
  next
    case False
    then have "obj = File" by (cases obj) auto
    then show ?thesis using Dir_Join[OF here(1) vn] here(2) by (simp add: visit_def)
  qed
  show ?case using first 6(2)[OF first here] 6(8,9) by simp
qed (auto simp: visit_def)

lemma walk_direct:
  "clean_path d \<Longrightarrow> names_ok_entries es \<Longrightarrow> entries_readable es \<Longrightarrow>
     walkEntries d d es acc = Inr (acc @ direct_images d es)"
proof (induction es arbitrary: acc)
  case Nil
  then show ?case by (simp add: direct_images_def)
next
  case (Cons e es)
  obtain n obj where e: "e = (n, obj)" by (cases e)
  have vn: "valid_name n" using Cons.prems e by simp
  have j: "clean_path (filepath_Join d n)" "filepath_Join d n \<noteq> d"
    "length d \<le> length (filepath_Join d n)"
    "filepath_Join d n \<noteq> ''.''" "filepath_Join d n \<noteq> ''/''"
    using clean_Join[OF Cons.prems(1) vn] child_props[OF Cons.prems(1) vn] by auto
  show ?case
  proof (cases "entry_IsDir obj")
    case True
    then have "obj \<noteq> File" by auto
    moreover have "walkDir d (filepath_Join d n) obj acc = Inr acc"
      using walk_below(1)[OF j _ _ True] Cons.prems e by simp
    ultimately show ?thesis using Cons e by (simp add: direct_images_def)
  next
    case False
    then have f: "obj = File" by (cases obj) auto
    show ?thesis using Cons e f Dir_Join[OF Cons.prems(1) vn] Ext_Join[OF Cons.prems(1) vn]
      by (simp add: direct_images_def visit_def)
  qed
qed

section \<open>The tree of ListSubfolders\<close>





lemma name_less_key:
  "name_less = (\<lambda>a b. natkey (strings_ToLower (Name a)) < natkey (strings_ToLower (Name b)))"
  by (simp add: name_less_def natsort_Compare_def fun_eq_iff)

lemma sorted_children: "sorted_wrt (\<lambda>a b. \<not> name_less b a) (sort_Slice name_less cs)"
  using sorted_sort_Slice_key[of "\<lambda>a. natkey (strings_ToLower (Name a))" cs]
  by (simp add: name_less_key not_less)

lemma list_all_sort_Slice: "list_all P (sort_Slice lt xs) = list_all P xs"
  using mset_sort_Slice[of lt xs] by (metis list_all_iff mset_eq_setD)

lemma natural_sorted_both:
  "\<forall>t. fst (ListSubfolders p obj) = Inr t \<longrightarrow> natural_sorted t"
  "list_all natural_sorted (fst (subfolders_loop p es))"
proof (induction p obj and p es rule: ListSubfolders_subfolders_loop.induct)
  case (4 basePath entries)
  then show ?case
    by (auto simp: sorted_children list_all_sort_Slice split: prod.splits)
next
  case (6 basePath name obj entries)
  then show ?case
    by (auto simp: Let_def split: prod.splits sum.splits)
qed auto


section \<open>Claims about the backend\<close>




text \<open>
  Claim C5: in every tree that \<open>ListSubfolders\<close> returns, the children of every node are
  in natural order of their lower-case names; \<open>img2\<close> comes strictly before \<open>img10\<close> in
  that order, so the two are never returned as \<open>img10\<close>, \<open>img2\<close>.
\<close>

theorem ListSubfolders_children_natural_order:
  "(fst (ListSubfolders p obj) = Inr t \<longrightarrow> natural_sorted t) \<and>
   natsort_Compare ''img2'' ''img10'' \<and> \<not> natsort_Compare ''img10'' ''img2''"
proof -
  have "natsort_Compare ''img2'' ''img10'' \<and> \<not> natsort_Compare ''img10'' ''img2''"
    by code_simp
  then show ?thesis using natural_sorted_both(1)[of p obj] by simp
qed

text \<open>
  A listing that holds \<open>IMG10\<close> before \<open>img2\<close>, and \<open>b10\<close> before \<open>b9\<close> one level down.
\<close>

theorem ListSubfolders_children_natural_order_witness:
  "fst (ListSubfolders ''/photos''
          (Dir (Some [(''IMG10'', Dir (Some [])), (''img2'', Dir (Some [(''b10'', Dir None), (''b9'', Dir None)]))]))) =
     Inr (Folder ''photos'' ''/photos''
           [Folder ''img2'' ''/photos/img2''
              [Folder ''b9'' ''/photos/img2/b9'' [], Folder ''b10'' ''/photos/img2/b10'' []],
            Folder ''IMG10'' ''/photos/IMG10'' []]) \<and>
   natural_sorted (Folder ''photos'' ''/photos''
           [Folder ''img2'' ''/photos/img2''
              [Folder ''b9'' ''/photos/img2/b9'' [], Folder ''b10'' ''/photos/img2/b10'' []],
            Folder ''IMG10'' ''/photos/IMG10'' []])"
proof -
  let ?fs = "Dir (Some [(''IMG10'', Dir (Some [])), (''img2'', Dir (Some [(''b10'', Dir None), (''b9'', Dir None)]))])"
  let ?t = "Folder ''photos'' ''/photos''
           [Folder ''img2'' ''/photos/img2''
              [Folder ''b9'' ''/photos/img2/b9'' [], Folder ''b10'' ''/photos/img2/b10'' []],
            Folder ''IMG10'' ''/photos/IMG10'' []]"
  have run: "fst (ListSubfolders ''/photos'' ?fs) = Inr ?t"
    by code_simp
  then show ?thesis
    using ListSubfolders_children_natural_order[of "''/photos''" ?fs ?t] by simp
qed

text \<open>
  What \<open>ListImages\<close> returns when nothing below the directory is unreadable. For a clean
  directory path, when every directory below it can be listed, the result is exactly the
  files directly in the directory whose lower-case extension is one of
  \<open>.jpg .jpeg .png .gif .bmp .webp .raf\<close>, sorted byte-wise. The call fails when the
  directory cannot be listed or inspected, and also when a directory anywhere below it
  cannot be listed, since the walk goes through all of them.
\<close>

theorem ListImages_contract:
  "clean_path dirPath \<Longrightarrow> names_ok_entries es \<Longrightarrow>
     (entries_readable es \<longrightarrow>
        ListImages dirPath (Dir (Some es)) = Inr (sort (direct_images dirPath es))) \<and>
     (\<not> entries_readable es \<longrightarrow> (\<exists>e. ListImages dirPath (Dir (Some es)) = Inl e)) \<and>
     ListImages dirPath (Dir None) = Inl (ReadDirFailed dirPath) \<and>
     ListImages dirPath NoStat = Inl (LstatFailed dirPath)"
proof -
  assume c: "clean_path dirPath" and n: "names_ok_entries es"
  have ok: "ListImages dirPath (Dir (Some es)) = Inr (sort (direct_images dirPath es))"
    if r: "entries_readable es"
    using walk_direct[OF c n r, of "[]"]
    by (simp add: ListImages_def visit_def sort_Strings_sort)
  have bad: "\<exists>e. ListImages dirPath (Dir (Some es)) = Inl e" if r: "\<not> entries_readable es"
    using walk_fails_or_not(2)[of es dirPath dirPath "[]"] r
    by (auto simp: ListImages_def visit_def)
  show ?thesis using ok bad by (simp add: ListImages_def)
qed

text \<open>
  The scenario of the spec: \<open>file1.jpg\<close>, \<open>file10.jpg\<close>, \<open>file2.jpg\<close> come back in
  byte-wise order; the text file and the image one level down are not listed.
\<close>

theorem ListImages_contract_witness:
  "ListImages ''/pics''
     (Dir (Some [(''file2.jpg'', File), (''file10.jpg'', File), (''file1.jpg'', File),
                 (''notes.txt'', File), (''X.PNG'', File),
                 (''sub'', Dir (Some [(''deep.jpg'', File)]))])) =
   Inr [''/pics/X.PNG'', ''/pics/file1.jpg'', ''/pics/file10.jpg'', ''/pics/file2.jpg'']"
proof -
  let ?es = "[(''file2.jpg'', File), (''file10.jpg'', File), (''file1.jpg'', File),
                 (''notes.txt'', File), (''X.PNG'', File),
                 (''sub'', Dir (Some [(''deep.jpg'', File)]))]"
  have c: "clean_path ''/pics''" by code_simp
  have n: "names_ok_entries ?es" by code_simp
  have r: "entries_readable ?es" by simp
  have s: "sort (direct_images ''/pics'' ?es) =
      [''/pics/X.PNG'', ''/pics/file1.jpg'', ''/pics/file10.jpg'', ''/pics/file2.jpg'']"
    by code_simp
  show ?thesis using ListImages_contract[OF c n] r s by simp
qed

text \<open>
  Claim C6 fails on the code. The directory \<open>/pics\<close> can be listed and holds the image
  \<open>a.jpg\<close>, which is what the claim has \<open>ListImages\<close> return; the call fails instead,
  because the walk also enters the subdirectory \<open>private\<close>, which cannot be listed, and
  the function given to the walk returns every error. Only direct children are ever
  collected, and \<open>ListSubfolders\<close> on the same directory logs the failure and goes on.
\<close>

theorem ListImages_fails_on_unreadable_subdirectory:
  "os_ReadDir (Dir (Some [(''a.jpg'', File), (''private'', Dir None)])) =
     Some [(''a.jpg'', File), (''private'', Dir None)]
   \<and> direct_images ''/pics'' [(''a.jpg'', File), (''private'', Dir None)] = [''/pics/a.jpg'']
   \<and> ListImages ''/pics'' (Dir (Some [(''a.jpg'', File), (''private'', Dir None)])) =
       Inl (ReadDirFailed ''/pics/private'')
   \<and> fst (ListSubfolders ''/pics'' (Dir (Some [(''a.jpg'', File), (''private'', Dir None)]))) =
       Inr (Folder ''pics'' ''/pics'' [Folder ''private'' ''/pics/private'' []])"
  by code_simp

text \<open>
  Claim C9: for a path with extension \<open>.raf\<close> (in any case) \<open>ReadImage\<close> always returns;
  when the extractor panics, the result is the empty string and an error that carries
  the panic.
\<close>

theorem ReadImage_raf_panic_contained:
  "strings_ToLower (filepath_Ext filePath) = ''.raf'' \<Longrightarrow>
     (\<exists>res. ReadImage env filePath = Returns res) \<and>
     (raw_ReadRAF env filePath = RafPanics r \<longrightarrow>
        ReadImage env filePath = Returns ([], Some (PanicDecodingRAF filePath r)))"
  by (auto simp: ReadImage_def deferred_recover_def raf_body_def split: raf_outcome.splits)

text \<open>
  A panicking extractor on \<open>DSCF0001.RAF\<close>.
\<close>

theorem ReadImage_raf_panic_contained_witness:
  "ReadImage panicking_io ''/pics/DSCF0001.RAF'' =
     Returns ([], Some (PanicDecodingRAF ''/pics/DSCF0001.RAF'' ''index out of range''))"
proof -
  have e: "strings_ToLower (filepath_Ext ''/pics/DSCF0001.RAF'') = ''.raf''"
    by code_simp
  have p: "raw_ReadRAF panicking_io ''/pics/DSCF0001.RAF'' = RafPanics ''index out of range''"
    by (simp add: panicking_io_def)
  show ?thesis
    using ReadImage_raf_panic_contained[OF e, of panicking_io "''index out of range''"] p
    by simp
qed


section \<open>The viewer: what the helpers change\<close>

lemma fst_preloadNextImage: "fst (preloadNextImage be s) = clear_preload s"
  by (simp add: preloadNextImage_def Let_def split: option.splits sum.splits)

lemma settle_fields:
  "currentFolder (settle x) = currentFolder (fst x)"
  "images (settle x) = images (fst x)"
  "currentIndex (settle x) = currentIndex (fst x)"
  "currentImageSrc (settle x) = currentImageSrc (fst x)"
  "isLoading (settle x) = isLoading (fst x)"
  "isTreeLoading (settle x) = isTreeLoading (fst x)"
  "slideshowActive (settle x) = slideshowActive (fst x)"
  "slideshowInterval (settle x) = slideshowInterval (fst x)"
  "slideshowMode (settle x) = slideshowMode (fst x)"
  "flatFolderList (settle x) = flatFolderList (fst x)"
  "leafFolderList (settle x) = leafFolderList (fst x)"
  "lastVisitedFolder (settle x) = lastVisitedFolder (fst x)"
  "timers (settle x) = timers (fst x)"
  "nextTimer (settle x) = nextTimer (fst x)"
  by (cases x, cases "snd x"; simp)+

lemma displayCurrentImage_fields:
  "currentFolder (fst (displayCurrentImage be s)) = currentFolder s"
  "images (fst (displayCurrentImage be s)) = images s"
  "currentIndex (fst (displayCurrentImage be s)) = currentIndex s"
  "isTreeLoading (fst (displayCurrentImage be s)) = isTreeLoading s"
  "slideshowActive (fst (displayCurrentImage be s)) = slideshowActive s"
  "slideshowInterval (fst (displayCurrentImage be s)) = slideshowInterval s"
  "slideshowMode (fst (displayCurrentImage be s)) = slideshowMode s"
  "flatFolderList (fst (displayCurrentImage be s)) = flatFolderList s"
  "leafFolderList (fst (displayCurrentImage be s)) = leafFolderList s"
  "lastVisitedFolder (fst (displayCurrentImage be s)) = lastVisitedFolder s"
  "timers (fst (displayCurrentImage be s)) = timers s"
  "nextTimer (fst (displayCurrentImage be s)) = nextTimer s"
  by (simp_all add: displayCurrentImage_def Let_def case_prod_beta fst_preloadNextImage
        clear_preload_def split: sum.splits)

lemma stopSlideshow_fields:
  "currentFolder (stopSlideshow s) = currentFolder s"
  "images (stopSlideshow s) = images s"
  "currentIndex (stopSlideshow s) = currentIndex s"
  "currentImageSrc (stopSlideshow s) = currentImageSrc s"
  "isLoading (stopSlideshow s) = isLoading s"
  "isTreeLoading (stopSlideshow s) = isTreeLoading s"
  "slideshowActive (stopSlideshow s) = False"
  "slideshowInterval (stopSlideshow s) = None"
  "slideshowMode (stopSlideshow s) = slideshowMode s"
  "flatFolderList (stopSlideshow s) = flatFolderList s"
  "leafFolderList (stopSlideshow s) = leafFolderList s"
  "lastVisitedFolder (stopSlideshow s) = lastVisitedFolder s"
  "preloadedImageSrc (stopSlideshow s) = preloadedImageSrc s"
  "preloadedIndex (stopSlideshow s) = preloadedIndex s"
  "preloadedFolder (stopSlideshow s) = preloadedFolder s"
  by (simp_all add: stopSlideshow_def Let_def split: option.splits)

lemma loadImagesForPath_fields:
  assumes "p \<noteq> []"
  shows "currentFolder (fst (loadImagesForPath be p s)) = p"
    and "images (fst (loadImagesForPath be p s)) =
           (case listImages be p of Inl err \<Rightarrow> [] | Inr imgs \<Rightarrow> imgs)"
    and "currentIndex (fst (loadImagesForPath be p s)) =
           (case listImages be p of Inl err \<Rightarrow> -1 | Inr imgs \<Rightarrow> if imgs = [] then -1 else 0)"
    and "isTreeLoading (fst (loadImagesForPath be p s)) = isTreeLoading s"
    and "lastVisitedFolder (fst (loadImagesForPath be p s)) = lastVisitedFolder s"
    and "slideshowActive (fst (loadImagesForPath be p s)) = False"
    and "slideshowInterval (fst (loadImagesForPath be p s)) = None"
    and "flatFolderList (fst (loadImagesForPath be p s)) = flatFolderList s"
    and "leafFolderList (fst (loadImagesForPath be p s)) = leafFolderList s"
    and "slideshowMode (fst (loadImagesForPath be p s)) = slideshowMode s"
  using assms
  by (simp_all add: loadImagesForPath_def Let_def case_prod_beta displayCurrentImage_fields
        stopSlideshow_fields clear_preload_def split: sum.splits)

lemma handleFolderSelected_fields:
  assumes "p \<noteq> []" "p \<noteq> currentFolder s"
  shows "currentFolder (fst (handleFolderSelected be p s)) = p"
    and "images (fst (handleFolderSelected be p s)) =
           (case listImages be p of Inl err \<Rightarrow> [] | Inr imgs \<Rightarrow> imgs)"
    and "currentIndex (fst (handleFolderSelected be p s)) =
           (case listImages be p of Inl err \<Rightarrow> -1 | Inr imgs \<Rightarrow> if imgs = [] then -1 else 0)"
    and "isTreeLoading (fst (handleFolderSelected be p s)) = isTreeLoading s"
    and "lastVisitedFolder (fst (handleFolderSelected be p s)) =
           (if currentFolder s \<noteq> [] then currentFolder s else lastVisitedFolder s)"
    and "slideshowActive (fst (handleFolderSelected be p s)) = False"
    and "slideshowInterval (fst (handleFolderSelected be p s)) = None"
    and "flatFolderList (fst (handleFolderSelected be p s)) = flatFolderList s"
    and "leafFolderList (fst (handleFolderSelected be p s)) = leafFolderList s"
  using assms
  by (simp_all add: handleFolderSelected_def Let_def case_prod_beta loadImagesForPath_fields
        clear_preload_def)



section \<open>The viewer: the search for the next leaf folder\<close>

lemma nextLeafFolder_cong:
  "flatFolderList s = flatFolderList t \<Longrightarrow> leafFolderList s = leafFolderList t \<Longrightarrow>
     currentFolder s = currentFolder t \<Longrightarrow> nextLeafFolder s = nextLeafFolder t"
  by (simp add: nextLeafFolder_def split: option.splits)

lemma nextLeafFolder_stopSlideshow: "nextLeafFolder (stopSlideshow s) = nextLeafFolder s"
  by (rule nextLeafFolder_cong) (simp_all add: stopSlideshow_fields)




section \<open>The viewer: the saturating end and the step back\<close>

lemma stopSlideshow_idem: "stopSlideshow (stopSlideshow s) = stopSlideshow s"
  by (simp add: stopSlideshow_def Let_def split: option.splits)

lemma at_end_stopSlideshow: "at_end (stopSlideshow s) = at_end s"
  by (simp add: at_end_def nextLeafFolder_stopSlideshow stopSlideshow_fields)

lemma nextImage_at_end: "at_end s \<Longrightarrow> nextImage be s = (stopSlideshow s, NoWrite)"
  by (auto simp: at_end_def nextImage_def Let_def)

lemma timers_stopSlideshow:
  "slideshowInterval s = Some h \<Longrightarrow> h \<notin> set (timers (stopSlideshow s))"
  by (simp add: stopSlideshow_def Let_def)

lemma prevImage_clears_first:
  "images s \<noteq> [] \<Longrightarrow> prevImage be (clear_preload s) = prevImage be s"
  by (simp add: prevImage_def Let_def clear_preload_def)

lemma displayCurrentImage_keeps_slot_empty:
  "preloadedImageSrc t = [] \<Longrightarrow> preloadedIndex t = -1 \<Longrightarrow> preloadedFolder t = [] \<Longrightarrow>
     preloadedImageSrc (fst (displayCurrentImage be t)) = []
     \<and> preloadedIndex (fst (displayCurrentImage be t)) = -1
     \<and> preloadedFolder (fst (displayCurrentImage be t)) = []"
  by (simp add: displayCurrentImage_def Let_def case_prod_beta fst_preloadNextImage
        clear_preload_def split: sum.splits)

lemma prevImage_ignores_slot:
  "images s \<noteq> [] \<Longrightarrow>
     prevImage be (s\<lparr>preloadedImageSrc := src, preloadedIndex := idx, preloadedFolder := folder\<rparr>)
       = prevImage be s"
  by (simp add: prevImage_def Let_def clear_preload_def)

section \<open>The viewer: the invariant\<close>

lemma random_index_lt: "0 < n \<Longrightarrow> random_index r n < n"
proof (cases r)
  case (Pair p q)
  assume n: "0 < n"
  have "p * n < n * (p + q + 1)" using n by (simp add: algebra_simps)
  then have "(p * n) div (p + q + 1) < n"
    by (simp add: less_mult_imp_div_less)
  then show ?thesis using Pair by simp
qed

lemma inv_clear_preload: "inv be s \<Longrightarrow> inv be (clear_preload s)"
  by (simp add: inv_def position_ok_def listing_ok_def slot_ok_def slot_holds_def clear_preload_def)

lemma inv_settle: "result_ok be x \<Longrightarrow> inv be (settle x)"
  by (cases x, cases "snd x")
     (auto simp: result_ok_def inv_def position_ok_def listing_ok_def slot_ok_def)

lemma pending_ok_fetch:
  "listImages be folder = Inr imgs \<Longrightarrow> 0 \<le> idx \<Longrightarrow> nat idx < length imgs \<Longrightarrow>
     pending_ok be (fetch be (imgs ! nat idx) idx folder)"
  by (auto simp: fetch_def slot_holds_def split: sum.splits)

lemma pending_ok_preload:
  "listing_ok be s \<Longrightarrow> pending_ok be (snd (preloadNextImage be s))"
proof -
  assume l: "listing_ok be s"
  have same: "pending_ok be (fetch be (images s ! nat (currentIndex s + 1)) (currentIndex s + 1) (currentFolder s))"
    if "images s \<noteq> []" "0 \<le> currentIndex s + 1" "currentIndex s + 1 < int (length (images s))"
    using that l by (intro pending_ok_fetch) (auto simp: listing_ok_def)
  have other: "pending_ok be (fetch be (imgs ! 0) 0 f)"
    if "listImages be f = Inr imgs" "imgs \<noteq> []" for f imgs
    using pending_ok_fetch[of be f imgs 0] that by simp
  show ?thesis
    using same other
    by (auto simp: preloadNextImage_def Let_def clear_preload_def split: option.splits sum.splits)
qed

lemma result_ok_preload:
  assumes "inv be s"
  shows "result_ok be (preloadNextImage be s)"
proof -
  have "listing_ok be s" using assms by (simp add: inv_def)
  then show ?thesis
    using assms
    by (simp add: result_ok_def fst_preloadNextImage inv_clear_preload pending_ok_preload)
qed

lemma inv_frame:
  "inv be s \<Longrightarrow> images t = images s \<Longrightarrow> currentIndex t = currentIndex s \<Longrightarrow>
     currentFolder t = currentFolder s \<Longrightarrow> isTreeLoading t = isTreeLoading s \<Longrightarrow>
     preloadedImageSrc t = preloadedImageSrc s \<Longrightarrow> preloadedIndex t = preloadedIndex s \<Longrightarrow>
     preloadedFolder t = preloadedFolder s \<Longrightarrow> inv be t"
  by (simp add: inv_def position_ok_def listing_ok_def slot_ok_def)

lemma result_ok_frame:
  "result_ok be x \<Longrightarrow> images t = images (fst x) \<Longrightarrow> currentIndex t = currentIndex (fst x) \<Longrightarrow>
     currentFolder t = currentFolder (fst x) \<Longrightarrow> isTreeLoading t = isTreeLoading (fst x) \<Longrightarrow>
     preloadedImageSrc t = preloadedImageSrc (fst x) \<Longrightarrow>
     preloadedIndex t = preloadedIndex (fst x) \<Longrightarrow>
     preloadedFolder t = preloadedFolder (fst x) \<Longrightarrow> result_ok be (t, snd x)"
  using inv_frame[of be "fst x" t] by (simp add: result_ok_def)

lemma result_ok_NoWrite: "inv be s \<Longrightarrow> result_ok be (s, NoWrite)"
  by (simp add: result_ok_def)

lemma result_ok_display: "inv be s \<Longrightarrow> result_ok be (displayCurrentImage be s)"
proof -
  assume i: "inv be s"
  have a: "result_ok be (fst (preloadNextImage be t)\<lparr>isLoading := False\<rparr>, snd (preloadNextImage be t))"
    if "inv be t" for t
    using result_ok_preload[OF that] by (rule result_ok_frame) simp_all
  have b: "inv be (s\<lparr>isLoading := True, currentImageSrc := d\<rparr>)" for d
    using i by (rule inv_frame) simp_all
  have c: "inv be (s\<lparr>currentImageSrc := []\<rparr>)"
    using i by (rule inv_frame) simp_all
  have d: "inv be ((clear_preload (s\<lparr>isLoading := True, currentImageSrc := []\<rparr>))\<lparr>isLoading := False\<rparr>)"
    using inv_clear_preload[OF b[of "[]"]] by (rule inv_frame) simp_all
  show ?thesis
    using a[OF b] c d result_ok_preload[OF c]
    by (simp add: displayCurrentImage_def Let_def case_prod_beta result_ok_NoWrite split: sum.splits)
qed

lemma inv_fresh:
  "preloadedImageSrc t = [] \<Longrightarrow> \<not> isTreeLoading t \<Longrightarrow>
     (images t = [] \<and> currentIndex t = -1) \<or>
     (images t \<noteq> [] \<and> currentIndex t = 0 \<and> listImages be (currentFolder t) = Inr (images t)) \<Longrightarrow>
     inv be t"
  by (auto simp: inv_def position_ok_def listing_ok_def slot_ok_def slot_holds_def)

lemma result_ok_load:
  "inv be s \<Longrightarrow> result_ok be (loadImagesForPath be p s)"
proof (cases "p = []")
  case True
  assume "inv be s"
  then show ?thesis using True by (simp add: loadImagesForPath_def result_ok_NoWrite)
next
  case False
  assume i: "inv be s"
  then have tl: "\<not> isTreeLoading s" by (simp add: inv_def)
  let ?s2 = "clear_preload (stopSlideshow (s\<lparr>isLoading := True\<rparr>)\<lparr>currentFolder := p\<rparr>)"
  show ?thesis
  proof (cases "listImages be p")
    case (Inl err)
    have "inv be (?s2\<lparr>images := [], currentIndex := -1, currentImageSrc := [], isLoading := False\<rparr>)"
      using tl by (intro inv_fresh) (simp_all add: clear_preload_def stopSlideshow_fields)
    then show ?thesis using False Inl
      by (simp add: loadImagesForPath_def Let_def result_ok_NoWrite)
  next
    case (Inr imgs)
    let ?s3 = "?s2\<lparr>images := imgs, currentIndex := (if length imgs > 0 then 0 else -1)\<rparr>"
    have "inv be ?s3"
      using tl Inr by (intro inv_fresh) (auto simp: clear_preload_def stopSlideshow_fields)
    then have "result_ok be (displayCurrentImage be ?s3)" by (rule result_ok_display)
    then have "result_ok be (fst (displayCurrentImage be ?s3)\<lparr>isLoading := False\<rparr>,
        snd (displayCurrentImage be ?s3))"
      by (rule result_ok_frame) simp_all
    then show ?thesis using False Inr
      by (simp add: loadImagesForPath_def Let_def case_prod_beta)
  qed
qed

lemma result_ok_clear:
  "result_ok be x \<Longrightarrow> result_ok be (clear_preload (fst x), snd x)"
  by (simp add: result_ok_def inv_clear_preload)

lemma result_ok_select: "inv be s \<Longrightarrow> result_ok be (handleFolderSelected be p s)"
proof -
  assume i: "inv be s"
  have "inv be (s\<lparr>lastVisitedFolder := currentFolder s\<rparr>)"
    using i by (rule inv_frame) simp_all
  then show ?thesis
    using i result_ok_clear[OF result_ok_load, of be _ p]
    by (simp add: handleFolderSelected_def Let_def case_prod_beta result_ok_NoWrite)
qed

lemma inv_move:
  assumes "inv be s" "images t = images s" "currentFolder t = currentFolder s"
    "isTreeLoading t = isTreeLoading s" "0 \<le> currentIndex t"
    "currentIndex t < int (length (images s))"
    "preloadedImageSrc t = [] \<or>
       (preloadedImageSrc t = preloadedImageSrc s \<and> preloadedIndex t = preloadedIndex s
        \<and> preloadedFolder t = preloadedFolder s)"
  shows "inv be t"
proof -
  have "slot_ok be s" using assms(1) by (simp add: inv_def)
  then have "slot_ok be t"
    using assms(7) by (auto simp: slot_ok_def) (simp add: slot_holds_def)
  moreover have "position_ok t" using assms(2,5,6) by (auto simp: position_ok_def)
  moreover have "listing_ok be t" using assms(1,2,3) by (simp add: inv_def listing_ok_def)
  ultimately show ?thesis using assms(1,4) by (simp add: inv_def)
qed

lemma inv_index_range:
  "inv be s \<Longrightarrow> images s \<noteq> [] \<Longrightarrow> 0 \<le> currentIndex s \<and> currentIndex s < int (length (images s))"
  by (simp add: inv_def position_ok_def)

lemma slot_match_listing:
  "inv be s \<Longrightarrow> preloadedImageSrc s \<noteq> [] \<Longrightarrow> preloadedIndex s = 0 \<Longrightarrow>
     \<exists>imgs. listImages be (preloadedFolder s) = Inr imgs \<and> imgs \<noteq> []
        \<and> readImage be (imgs ! 0) = Inr (preloadedImageSrc s)"
  by (auto simp: inv_def slot_ok_def slot_holds_def split: sum.splits)

lemma result_ok_isLoading:
  "result_ok be x \<Longrightarrow> result_ok be (fst x\<lparr>isLoading := b\<rparr>, snd x)"
  by (rule result_ok_frame) simp_all

lemma result_ok_next: "inv be s \<Longrightarrow> result_ok be (nextImage be s)"
proof -
  assume i: "inv be s"
  then have tl: "\<not> isTreeLoading s" by (simp add: inv_def)
  have stop: "inv be (stopSlideshow s)"
    using i by (rule inv_frame) (simp_all add: stopSlideshow_fields)
  have cross: "result_ok be
      (case listImages be T of
         Inl err \<Rightarrow> (s\<lparr>isLoading := True, currentImageSrc := preloadedImageSrc s,
                        currentFolder := T\<rparr>, NoWrite)
       | Inr imgs \<Rightarrow>
           let (s2, p) = preloadNextImage be
                 (clear_preload (s\<lparr>isLoading := True, currentImageSrc := preloadedImageSrc s,
                    currentFolder := T, images := imgs, currentIndex := 0\<rparr>))
           in (s2\<lparr>isLoading := False\<rparr>, p))"
    if m: "T = preloadedFolder s" "0 = preloadedIndex s" "preloadedImageSrc s \<noteq> []" for T
  proof -
    obtain imgs where l: "listImages be T = Inr imgs" "imgs \<noteq> []"
      using slot_match_listing[OF i m(3)] m(1,2) by auto
    let ?t = "clear_preload (s\<lparr>isLoading := True, currentImageSrc := preloadedImageSrc s,
                    currentFolder := T, images := imgs, currentIndex := 0\<rparr>)"
    have "inv be ?t" using l tl by (intro inv_fresh) (simp_all add: clear_preload_def)
    then have "result_ok be (fst (preloadNextImage be ?t)\<lparr>isLoading := False\<rparr>,
        snd (preloadNextImage be ?t))"
      by (intro result_ok_isLoading result_ok_preload)
    then show ?thesis using l by (simp add: case_prod_beta Let_def)
  qed
  have within: "currentIndex s + 1 < int (length (images s)) \<Longrightarrow> images s \<noteq> [] \<Longrightarrow>
      inv be (s\<lparr>currentIndex := currentIndex s + 1\<rparr>) \<and>
      inv be (clear_preload (s\<lparr>isLoading := True, currentImageSrc := preloadedImageSrc s,
                             currentIndex := currentIndex s + 1\<rparr>))"
    using inv_index_range[OF i]
    by (auto intro!: inv_move[OF i] simp: clear_preload_def)
  have pre: "result_ok be (fst (preloadNextImage be t)\<lparr>isLoading := False\<rparr>,
        snd (preloadNextImage be t))" if "inv be t" for t
    using that by (intro result_ok_isLoading result_ok_preload)
  show ?thesis
  proof (cases "length (images s) = 0 \<and> length (flatFolderList s) = 0")
    case True
    then show ?thesis using i by (simp add: nextImage_def result_ok_NoWrite)
  next
    case something: False
    show ?thesis
    proof (cases "length (images s) = 0 \<or> int (length (images s)) \<le> currentIndex s + 1")
      case past: True
      show ?thesis
      proof (cases "nextLeafFolder s")
        case None
        then show ?thesis using something past stop
          by (auto simp: nextImage_def Let_def result_ok_NoWrite)
      next
        case (Some T)
        show ?thesis
        proof (cases "T = preloadedFolder s \<and> 0 = preloadedIndex s \<and> preloadedImageSrc s \<noteq> []")
          case True
          then show ?thesis using something past Some cross[of T]
            by (auto simp: nextImage_def Let_def)
        next
          case False
          then show ?thesis using something past Some result_ok_select[OF i, of T]
            by (auto simp: nextImage_def Let_def)
        qed
      qed
    next
      case inside: False
      then have r: "currentIndex s + 1 < int (length (images s))" "images s \<noteq> []" by auto
      show ?thesis
      proof (cases "slideshowMode s = Sequence \<and> currentIndex s + 1 = preloadedIndex s
                \<and> currentFolder s = preloadedFolder s \<and> preloadedImageSrc s \<noteq> []")
        case True
        then show ?thesis using something inside pre within[OF r]
          by (auto simp: nextImage_def Let_def case_prod_beta)
      next
        case False
        then show ?thesis using something inside within[OF r]
          by (auto simp: nextImage_def Let_def result_ok_display)
      qed
    qed
  qed
qed

lemma result_ok_prev: "inv be s \<Longrightarrow> result_ok be (prevImage be s)"
proof -
  assume i: "inv be s"
  have "inv be (clear_preload s\<lparr>currentIndex :=
          (if currentIndex (clear_preload s) - 1 < 0 then int (length (images (clear_preload s))) - 1
           else currentIndex (clear_preload s) - 1)\<rparr>)"
    if "images s \<noteq> []"
    using inv_index_range[OF i that] that
    by (auto intro!: inv_move[OF i] simp: clear_preload_def)
  then show ?thesis
    using i by (auto simp: prevImage_def Let_def result_ok_NoWrite result_ok_display)
qed

lemma draw_other_index_lt:
  "draw_other_index n cur rs = Some i \<Longrightarrow> 0 < n \<Longrightarrow> i < n"
  by (induction rs) (auto simp: Let_def random_index_lt simp del: random_index.simps split: if_splits)

lemma result_ok_random_image:
  "inv be s \<Longrightarrow> displayRandomImageInFolder be rs s = Some x \<Longrightarrow> result_ok be x"
proof -
  assume i: "inv be s" and r: "displayRandomImageInFolder be rs s = Some x"
  have m: "inv be (s\<lparr>currentIndex := int k\<rparr>)" if "k < length (images s)" for k
    using that by (auto intro!: inv_move[OF i])
  show ?thesis
  proof (cases "length (images s) < 1")
    case True
    then show ?thesis using r i by (auto simp: displayRandomImageInFolder_def result_ok_NoWrite)
  next
    case False
    show ?thesis
    proof (cases "length (images s) = 1")
      case True
      then show ?thesis using r m[of 0]
        by (auto simp: displayRandomImageInFolder_def result_ok_display)
    next
      case n1: False
      then obtain k where k: "draw_other_index (length (images s)) (currentIndex s) rs = Some k"
        and x: "x = displayCurrentImage be (s\<lparr>currentIndex := int k\<rparr>)"
        using r False by (auto simp: displayRandomImageInFolder_def split: option.splits)
      have "k < length (images s)" using draw_other_index_lt[OF k] False by simp
      then show ?thesis using x m by (simp add: result_ok_display)
    qed
  qed
qed

lemma inv_random_all: "inv be s \<Longrightarrow> inv be (displayRandomImageInAllFolders be r1 r2 s)"
proof -
  assume i: "inv be s"
  then have parts: "slot_ok be s" "\<not> isTreeLoading s" by (simp_all add: inv_def)
  have empty: "inv be t" if "images t = []" "currentIndex t = -1"
      "isTreeLoading t = isTreeLoading s" "preloadedImageSrc t = preloadedImageSrc s"
      "preloadedIndex t = preloadedIndex s" "preloadedFolder t = preloadedFolder s" for t
    using that parts by (simp add: inv_def position_ok_def listing_ok_def slot_ok_def)
  have full: "inv be t" if "listImages be (currentFolder t) = Inr (images t)"
      "0 \<le> currentIndex t" "currentIndex t < int (length (images t))"
      "isTreeLoading t = isTreeLoading s" "preloadedImageSrc t = preloadedImageSrc s"
      "preloadedIndex t = preloadedIndex s" "preloadedFolder t = preloadedFolder s" for t
    using that parts by (auto simp: inv_def position_ok_def listing_ok_def slot_ok_def)
  have keep: "inv be (s\<lparr>isLoading := b\<rparr>)" for b using i by (rule inv_frame) simp_all
  show ?thesis
  proof (cases "length (leafFolderList s) = 0")
    case True
    then show ?thesis using i by (simp add: displayRandomImageInAllFolders_def)
  next
    case leaves: False
    let ?F = "leafFolderList s ! random_index r1 (length (leafFolderList s))"
    show ?thesis
    proof (cases "listImages be ?F")
      case (Inl err)
      then show ?thesis using leaves
        by (auto intro!: empty simp: displayRandomImageInAllFolders_def Let_def
              simp del: random_index.simps)
    next
      case (Inr imgs)
      show ?thesis
      proof (cases "imgs = []")
        case True
        then show ?thesis using leaves Inr keep[of False]
          by (auto simp: displayRandomImageInAllFolders_def Let_def
                simp del: random_index.simps)
      next
        case False
        then have lt: "random_index r2 (length imgs) < length imgs"
          by (simp add: random_index_lt del: random_index.simps)
        show ?thesis
        proof (cases "readImage be (imgs ! random_index r2 (length imgs))")
          case (Inl err)
          then show ?thesis using leaves Inr False
            by (auto intro!: empty simp: displayRandomImageInAllFolders_def Let_def
                  simp del: random_index.simps)
        next
          case r: (Inr data)
          then show ?thesis using leaves Inr False lt
            by (auto intro!: full simp: displayRandomImageInAllFolders_def Let_def
                  simp del: random_index.simps)
        qed
      qed
    qed
  qed
qed

lemma result_ok_last: "inv be s \<Longrightarrow> result_ok be (goToLastVisitedFolder be s)"
  by (simp add: goToLastVisitedFolder_def result_ok_NoWrite result_ok_select)

lemma result_ok_random_folder:
  "inv be s \<Longrightarrow> goToRandomFolder be rs s = Some x \<Longrightarrow> result_ok be x"
  by (auto simp: goToRandomFolder_def Let_def result_ok_NoWrite result_ok_select
        split: if_splits option.splits)

lemma result_ok_next_leaf: "inv be s \<Longrightarrow> result_ok be (goToNextLeafFolder be s)"
  by (simp add: goToNextLeafFolder_def Let_def result_ok_NoWrite result_ok_select
        split: option.splits)

lemma result_ok_prev_leaf: "inv be s \<Longrightarrow> result_ok be (goToPrevLeafFolder be s)"
  by (simp add: goToPrevLeafFolder_def Let_def result_ok_NoWrite result_ok_select
        split: option.splits)

lemma result_ok_action:
  "inv be s \<Longrightarrow> slideshow_action be rs r1 r2 s = Some x \<Longrightarrow> result_ok be x"
  by (cases "slideshowMode s")
     (auto simp: slideshow_action_def result_ok_next result_ok_random_image
        inv_random_all result_ok_NoWrite)

lemma result_ok_start:
  "inv be s \<Longrightarrow> startSlideshow be rs r1 r2 s = Some x \<Longrightarrow> result_ok be x"
proof -
  assume i: "inv be s" and r: "startSlideshow be rs r1 r2 s = Some x"
  let ?s1 = "case slideshowDelay s of
                  None \<Rightarrow> s\<lparr>slideshowDelay := Some 500\<rparr>
                | Some d \<Rightarrow> if d < 500 then s\<lparr>slideshowDelay := Some 500\<rparr> else s"
  have i1: "inv be ?s1"
    using i by (rule inv_frame) (simp_all split: option.splits)
  let ?s3 = "(if slideshowMode ?s1 \<noteq> Sequence then clear_preload ?s1 else ?s1)\<lparr>slideshowActive := True\<rparr>"
  have "inv be (if slideshowMode ?s1 \<noteq> Sequence then clear_preload ?s1 else ?s1)"
    using i1 by (simp add: inv_clear_preload)
  then have i3: "inv be ?s3" by (rule inv_frame) simp_all
  have timer: "result_ok be (fst y\<lparr>slideshowInterval := Some (nextTimer (fst y)),
                           timers := nextTimer (fst y) # timers (fst y),
                           nextTimer := nextTimer (fst y) + 1\<rparr>, snd y)"
    if "slideshow_action be rs r1 r2 ?s3 = Some y" for y
    using result_ok_action[OF i3 that] by (rule result_ok_frame) simp_all
  show ?thesis
    using r i1 timer
    unfolding startSlideshow_def Let_def
    by (auto simp: result_ok_NoWrite case_prod_beta split: if_splits option.splits)
qed

lemma result_ok_toggle:
  "inv be s \<Longrightarrow> toggleSlideshow be rs r1 r2 s = Some x \<Longrightarrow> result_ok be x"
proof -
  assume i: "inv be s" and r: "toggleSlideshow be rs r1 r2 s = Some x"
  have "inv be (stopSlideshow s)"
    using i by (rule inv_frame) (simp_all add: stopSlideshow_fields)
  then show ?thesis using i r
    by (auto simp: toggleSlideshow_def result_ok_NoWrite result_ok_start split: if_splits)
qed

lemma result_ok_tick:
  "inv be s \<Longrightarrow> tick be rs r1 r2 s = Some x \<Longrightarrow> result_ok be x"
  by (auto simp: tick_def result_ok_NoWrite result_ok_action split: if_splits)

lemma inv_loadFolderTree: "inv be s \<Longrightarrow> inv be (loadFolderTree be p s)"
  by (auto simp: loadFolderTree_def Let_def inv_def position_ok_def listing_ok_def slot_ok_def
        split: sum.splits)

lemma result_ok_browse: "inv be s \<Longrightarrow> result_ok be (selectFolder be dialog s)"
proof -
  assume i: "inv be s"
  let ?s1 = "s\<lparr>treeError := [], folderTreeRoot := None, images := [], currentIndex := -1,
                 currentImageSrc := [], currentFolder := [], flatFolderList := [],
                 isLoading := False, isTreeLoading := False\<rparr>"
  have i1: "inv be ?s1"
    using i by (simp add: inv_def position_ok_def listing_ok_def slot_ok_def)
  have e: "inv be (?s1\<lparr>treeError := m\<rparr>)" for m
    using i1 by (rule inv_frame) simp_all
  have l: "result_ok be (loadFolderTree be p (fst (loadImagesForPath be p ?s1)),
             snd (loadImagesForPath be p ?s1))" for p
    using result_ok_load[OF i1, of p] by (simp add: result_ok_def inv_loadFolderTree)
  show ?thesis
    unfolding selectFolder_def Let_def
    using i1 e l by (auto simp: result_ok_NoWrite case_prod_beta split: sum.splits)
qed

lemma inv_run: "inv be s \<Longrightarrow> run be op s = Some s' \<Longrightarrow> inv be s'"
proof (cases op)
  case Stop
  assume "inv be s" "run be op s = Some s'"
  then show ?thesis using Stop inv_frame[of be s "stopSlideshow s"]
    by (auto simp: stopSlideshow_fields)
next
  case (SetMode m)
  assume "inv be s" "run be op s = Some s'"
  then show ?thesis using SetMode inv_frame[of be s "s\<lparr>slideshowMode := m\<rparr>"] by auto
next
  case (SetDelay d)
  assume "inv be s" "run be op s = Some s'"
  then show ?thesis using SetDelay inv_frame[of be s "s\<lparr>slideshowDelay := d\<rparr>"] by auto
qed (auto intro!: inv_settle
       simp: result_ok_browse result_ok_select result_ok_next result_ok_prev result_ok_last
         result_ok_next_leaf result_ok_prev_leaf
       dest: result_ok_random_folder result_ok_start result_ok_toggle result_ok_tick)

lemma inv_initial: "inv be initial"
  by (simp add: inv_def position_ok_def listing_ok_def slot_ok_def slot_holds_def initial_def)

lemma reachable_inv: "reachable be s \<Longrightarrow> inv be s"
  by (induction rule: reachable.induct) (auto simp: inv_initial dest: inv_run)

lemma run_all_reachable:
  "reachable be s \<Longrightarrow> run_all be ops s = Some s' \<Longrightarrow> reachable be s'"
  by (induction ops arbitrary: s) (auto split: option.splits intro: reachable.step)

lemma album_after_Some:
  "run_all album ops initial \<noteq> None \<Longrightarrow> run_all album ops initial = Some (album_after ops)"
  by (auto simp: album_after_def)

lemma album_after_reachable:
  "run_all album ops initial \<noteq> None \<Longrightarrow> reachable album (album_after ops)"
  using run_all_reachable[OF reachable.start, of album ops "album_after ops"]
  by (simp add: album_after_Some)

section \<open>The viewer: the random draws return\<close>

lemma draw_other_index_returns:
  "r \<in> set rs \<Longrightarrow> int (random_index r n) \<noteq> cur \<Longrightarrow> draw_other_index n cur rs \<noteq> None"
  by (induction rs) (auto simp: Let_def simp del: random_index.simps)

lemma draw_other_folder_returns:
  "r \<in> set rs \<Longrightarrow> leaves ! random_index r (length leaves) \<noteq> cur \<Longrightarrow>
     draw_other_folder leaves cur rs \<noteq> None"
  by (induction rs) (auto simp: Let_def simp del: random_index.simps)

lemma goToRandomFolder_returns:
  "r \<in> set rs \<Longrightarrow>
     leafFolderList s ! random_index r (length (leafFolderList s)) \<noteq> currentFolder s \<Longrightarrow>
     goToRandomFolder be rs s \<noteq> None"
  using draw_other_folder_returns[of r rs "leafFolderList s" "currentFolder s"]
  by (auto simp: goToRandomFolder_def Let_def simp del: random_index.simps split: option.splits)

lemma goToRandomFolder_single_leaf:
  "length (leafFolderList s) = 1 \<Longrightarrow> goToRandomFolder be rs s \<noteq> None"
  by (auto simp: goToRandomFolder_def Let_def)

section \<open>The viewer: the two ways across a folder boundary\<close>

lemma nextImage_with_prefetch_keeps_slideshow:
  assumes "images s = [] \<or> int (length (images s)) \<le> currentIndex s + 1"
    and "nextLeafFolder s = Some T"
    and "T = preloadedFolder s" "preloadedIndex s = 0" "preloadedImageSrc s \<noteq> []"
  shows "slideshowActive (settle (nextImage be s)) = slideshowActive s
    \<and> timers (settle (nextImage be s)) = timers s"
proof -
  have something: "\<not> (length (images s) = 0 \<and> length (flatFolderList s) = 0)"
    using assms(2) by (auto simp: nextLeafFolder_def)
  show ?thesis
    using something assms
    by (auto simp: nextImage_def Let_def settle_fields case_prod_beta fst_preloadNextImage
          clear_preload_def split: sum.splits)
qed

lemma nextImage_without_prefetch_stops_slideshow:
  assumes "images s = [] \<or> int (length (images s)) \<le> currentIndex s + 1"
    and "nextLeafFolder s = Some T" "T \<noteq> []" "T \<noteq> currentFolder s"
    and "\<not> (T = preloadedFolder s \<and> 0 = preloadedIndex s \<and> preloadedImageSrc s \<noteq> [])"
  shows "\<not> slideshowActive (settle (nextImage be s))
    \<and> slideshowInterval (settle (nextImage be s)) = None"
proof -
  have something: "\<not> (length (images s) = 0 \<and> length (flatFolderList s) = 0)"
    using assms(2) by (auto simp: nextLeafFolder_def)
  have "nextImage be s = handleFolderSelected be T s"
    using something assms(1,2,5) by (auto simp: nextImage_def Let_def)
  then show ?thesis using assms(3,4)
    by (simp add: settle_fields handleFolderSelected_fields)
qed

section \<open>Claims about the viewer\<close>




text \<open>
  Claim C2: at the saturating end \<open>nextImage\<close> leaves folder, images and index as they
  are, stops the slideshow (the flag is cleared, the remembered timer is cancelled and
  forgotten), and a second call changes nothing at all.
\<close>

theorem nextImage_saturates:
  "at_end s \<Longrightarrow>
     (let s' = settle (nextImage be s)
      in currentFolder s' = currentFolder s \<and> images s' = images s
         \<and> currentIndex s' = currentIndex s
         \<and> \<not> slideshowActive s' \<and> slideshowInterval s' = None
         \<and> (\<forall>h. slideshowInterval s = Some h \<longrightarrow> h \<notin> set (timers s'))
         \<and> at_end s'
         \<and> settle (nextImage be s') = s')"
proof -
  assume e: "at_end s"
  have one: "settle (nextImage be s) = stopSlideshow s"
    using nextImage_at_end[OF e] by simp
  have e': "at_end (stopSlideshow s)" using e by (simp add: at_end_stopSlideshow)
  have two: "settle (nextImage be (stopSlideshow s)) = stopSlideshow s"
    using nextImage_at_end[OF e'] by (simp add: stopSlideshow_idem)
  show ?thesis
    unfolding Let_def one
    using e' two by (simp add: stopSlideshow_fields timers_stopSlideshow)
qed

text \<open>
  A sequence slideshow that has reached \<open>d.jpg\<close>, the only image of the last leaf folder.
\<close>

theorem nextImage_saturates_witness:
  "slideshowActive (album_after
      [Browse (Inr ''/root''), TreeClick ''/root/2024-03'', Start [] (0, 0) (0, 0)])
   \<and> currentFolder (settle (nextImage album (album_after
      [Browse (Inr ''/root''), TreeClick ''/root/2024-03'', Start [] (0, 0) (0, 0)])))
       = ''/root/2024-04''
   \<and> currentIndex (settle (nextImage album (album_after
      [Browse (Inr ''/root''), TreeClick ''/root/2024-03'', Start [] (0, 0) (0, 0)]))) = 0
   \<and> \<not> slideshowActive (settle (nextImage album (album_after
      [Browse (Inr ''/root''), TreeClick ''/root/2024-03'', Start [] (0, 0) (0, 0)])))
   \<and> settle (nextImage album (settle (nextImage album (album_after
      [Browse (Inr ''/root''), TreeClick ''/root/2024-03'', Start [] (0, 0) (0, 0)]))))
      = settle (nextImage album (album_after
      [Browse (Inr ''/root''), TreeClick ''/root/2024-03'', Start [] (0, 0) (0, 0)]))"
proof -
  let ?s = "album_after
      [Browse (Inr ''/root''), TreeClick ''/root/2024-03'', Start [] (0, 0) (0, 0)]"
  have e: "at_end ?s" by code_simp
  have here: "slideshowActive ?s \<and> currentFolder ?s = ''/root/2024-04'' \<and> currentIndex ?s = 0"
    by code_simp
  show ?thesis
    using nextImage_saturates[OF e, of album] here by (simp add: Let_def)
qed

text \<open>
  The invariant of the position over files that stay as they are: in every state
  reachable with one backend, and after every operation from it with that backend, the
  index lies within the image list when the list is not empty, and it is -1 exactly when
  the list is empty.
\<close>

theorem position_invariant:
  "reachable be s \<Longrightarrow>
     position_ok s \<and> (\<forall>op s'. run be op s = Some s' \<longrightarrow> position_ok s')"
proof -
  assume r: "reachable be s"
  then have i: "inv be s" by (rule reachable_inv)
  have "position_ok s'" if "run be op s = Some s'" for op s'
    using inv_run[OF i that] by (simp add: inv_def)
  then show ?thesis using i by (simp add: inv_def)
qed

text \<open>
  At the first of the two images of \<open>/root/2024-01\<close> the invariant holds, and it holds
  after the step to the second image.
\<close>

theorem position_invariant_witness:
  "images (album_after [Browse (Inr ''/root''), TreeClick ''/root/2024-01''])
     = [''/root/2024-01/a.jpg'', ''/root/2024-01/b.jpg'']
   \<and> currentIndex (album_after [Browse (Inr ''/root''), TreeClick ''/root/2024-01'']) = 0
   \<and> position_ok (album_after [Browse (Inr ''/root''), TreeClick ''/root/2024-01''])
   \<and> currentIndex (settle (nextImage album
        (album_after [Browse (Inr ''/root''), TreeClick ''/root/2024-01'']))) = 1
   \<and> position_ok (settle (nextImage album
        (album_after [Browse (Inr ''/root''), TreeClick ''/root/2024-01''])))"
proof -
  let ?ops = "[Browse (Inr ''/root''), TreeClick ''/root/2024-01'']"
  have "run_all album ?ops initial \<noteq> None" by code_simp
  then have r: "reachable album (album_after ?ops)" by (rule album_after_reachable)
  have here: "images (album_after ?ops) = [''/root/2024-01/a.jpg'', ''/root/2024-01/b.jpg'']
    \<and> currentIndex (album_after ?ops) = 0
    \<and> currentIndex (settle (nextImage album (album_after ?ops))) = 1" by code_simp
  have "run album NextImage (album_after ?ops)
      = Some (settle (nextImage album (album_after ?ops)))" by simp
  then show ?thesis using position_invariant[OF r] here by blast
qed

text \<open>
  Claim C3 fails on the code. The viewer shows \<open>b.jpg\<close>, the last image of
  \<open>/root/2024-01\<close>, and has prefetched \<open>c.jpg\<close> of \<open>/root/2024-02\<close>; then that file is
  removed. \<open>nextImage\<close> finds the prefetched image, lists the folder again and sets the
  index to the target index 0 without looking at the length of the new list: the image
  list is empty and the index is 0. \<open>loadImagesForPath\<close>, which the other branch of the
  same step goes through, tests the length and sets -1.
\<close>

theorem nextImage_after_emptied_folder_breaks_position:
  "images (album_after [Browse (Inr ''/root''), TreeClick ''/root/2024-01'', NextImage])
       = [''/root/2024-01/a.jpg'', ''/root/2024-01/b.jpg'']
   \<and> currentIndex (album_after [Browse (Inr ''/root''), TreeClick ''/root/2024-01'', NextImage])
       = 1
   \<and> preloadedFolder (album_after [Browse (Inr ''/root''), TreeClick ''/root/2024-01'', NextImage])
       = ''/root/2024-02''
   \<and> preloadedIndex (album_after [Browse (Inr ''/root''), TreeClick ''/root/2024-01'', NextImage])
       = 0
   \<and> preloadedImageSrc
        (album_after [Browse (Inr ''/root''), TreeClick ''/root/2024-01'', NextImage])
       = ''data:/root/2024-02/c.jpg''
   \<and> listImages album_emptied ''/root/2024-02'' = Inr []
   \<and> currentFolder (settle (nextImage album_emptied
        (album_after [Browse (Inr ''/root''), TreeClick ''/root/2024-01'', NextImage])))
       = ''/root/2024-02''
   \<and> images (settle (nextImage album_emptied
        (album_after [Browse (Inr ''/root''), TreeClick ''/root/2024-01'', NextImage]))) = []
   \<and> currentIndex (settle (nextImage album_emptied
        (album_after [Browse (Inr ''/root''), TreeClick ''/root/2024-01'', NextImage]))) = 0
   \<and> currentIndex (settle (handleFolderSelected album_emptied ''/root/2024-02''
        (album_after [Browse (Inr ''/root''), TreeClick ''/root/2024-01'', NextImage]))) = -1"
  by code_simp

text \<open>
  In the words of the invariant: it holds before that step and not after it.
\<close>

lemma emptied_folder_position_not_ok:
  "position_ok (album_after [Browse (Inr ''/root''), TreeClick ''/root/2024-01'', NextImage])
   \<and> \<not> position_ok (settle (nextImage album_emptied
        (album_after [Browse (Inr ''/root''), TreeClick ''/root/2024-01'', NextImage])))"
  by code_simp

text \<open>
  Claim C7: with a non-empty image list \<open>prevImage\<close> keeps the folder and the list, moves
  the index down by one when it is above 0 and to the last image otherwise, and clears
  the preload slot first: when \<open>prevImage\<close> itself has run, the slot is empty (only the
  prefetch started for the new position fills it afterwards), and whatever the slot held
  before has no effect on the outcome.
\<close>

theorem prevImage_stays_in_folder:
  "images s \<noteq> [] \<Longrightarrow>
     (let s' = settle (prevImage be s)
      in currentFolder s' = currentFolder s \<and> images s' = images s
         \<and> currentIndex s' =
             (if 0 < currentIndex s then currentIndex s - 1 else int (length (images s)) - 1)
         \<and> settle (prevImage be (clear_preload s)) = s')
     \<and> preloadedImageSrc (fst (prevImage be s)) = []
     \<and> preloadedIndex (fst (prevImage be s)) = -1
     \<and> preloadedFolder (fst (prevImage be s)) = []
     \<and> prevImage be
          (s\<lparr>preloadedImageSrc := src, preloadedIndex := idx, preloadedFolder := folder\<rparr>)
        = prevImage be s"
proof -
  assume n: "images s \<noteq> []"
  have pos: "let s' = settle (prevImage be s)
      in currentFolder s' = currentFolder s \<and> images s' = images s
         \<and> currentIndex s' =
             (if 0 < currentIndex s then currentIndex s - 1 else int (length (images s)) - 1)
         \<and> settle (prevImage be (clear_preload s)) = s'"
    using n
    by (simp add: Let_def settle_fields prevImage_clears_first)
       (simp add: prevImage_def Let_def displayCurrentImage_fields clear_preload_def)
  let ?t = "(clear_preload s)\<lparr>currentIndex :=
      (if currentIndex (clear_preload s) - 1 < 0 then int (length (images (clear_preload s))) - 1
       else currentIndex (clear_preload s) - 1)\<rparr>"
  have moved: "prevImage be s = displayCurrentImage be ?t"
    using n by (simp add: prevImage_def Let_def)
  have "preloadedImageSrc ?t = [] \<and> preloadedIndex ?t = -1 \<and> preloadedFolder ?t = []"
    by (simp add: clear_preload_def)
  then have slot: "preloadedImageSrc (fst (prevImage be s)) = []
     \<and> preloadedIndex (fst (prevImage be s)) = -1
     \<and> preloadedFolder (fst (prevImage be s)) = []"
    unfolding moved by (intro displayCurrentImage_keeps_slot_empty) simp_all
  show ?thesis using pos slot prevImage_ignores_slot[OF n] by simp
qed

text \<open>
  At the first of the two images of \<open>/root/2024-01\<close>, with \<open>b.jpg\<close> in the slot, a step
  back wraps to index 1 of the same folder and leaves the slot empty.
\<close>

theorem prevImage_stays_in_folder_witness:
  "currentIndex (album_after [Browse (Inr ''/root''), TreeClick ''/root/2024-01'']) = 0
   \<and> preloadedImageSrc (album_after [Browse (Inr ''/root''), TreeClick ''/root/2024-01''])
       = ''data:/root/2024-01/b.jpg''
   \<and> currentFolder (settle (prevImage album
        (album_after [Browse (Inr ''/root''), TreeClick ''/root/2024-01''])))
       = ''/root/2024-01''
   \<and> currentIndex (settle (prevImage album
        (album_after [Browse (Inr ''/root''), TreeClick ''/root/2024-01'']))) = 1
   \<and> preloadedImageSrc (fst (prevImage album
        (album_after [Browse (Inr ''/root''), TreeClick ''/root/2024-01'']))) = []
   \<and> preloadedIndex (fst (prevImage album
        (album_after [Browse (Inr ''/root''), TreeClick ''/root/2024-01'']))) = -1"
proof -
  let ?s = "album_after [Browse (Inr ''/root''), TreeClick ''/root/2024-01'']"
  have n: "images ?s \<noteq> []" by code_simp
  have here: "currentIndex ?s = 0 \<and> currentFolder ?s = ''/root/2024-01''
      \<and> int (length (images ?s)) = 2
      \<and> preloadedImageSrc ?s = ''data:/root/2024-01/b.jpg''" by code_simp
  show ?thesis
    using prevImage_stays_in_folder[OF n, of album] here by (simp add: Let_def)
qed

text \<open>
  Claim C8: in a reachable state, \<open>goToLastVisitedFolder\<close> does nothing when no folder is
  remembered; when the remembered folder differs from the current one, the first call
  exchanges the two and the second exchanges them back.
\<close>

theorem goToLastVisitedFolder_swaps:
  "reachable be s \<Longrightarrow>
     (lastVisitedFolder s = [] \<longrightarrow> settle (goToLastVisitedFolder be s) = s)
     \<and> (lastVisitedFolder s \<noteq> [] \<and> currentFolder s \<noteq> []
          \<and> currentFolder s \<noteq> lastVisitedFolder s \<longrightarrow>
        (let s1 = settle (goToLastVisitedFolder be s);
             s2 = settle (goToLastVisitedFolder be s1)
         in currentFolder s1 = lastVisitedFolder s \<and> lastVisitedFolder s1 = currentFolder s
            \<and> currentFolder s2 = currentFolder s \<and> lastVisitedFolder s2 = lastVisitedFolder s))"
proof -
  assume r: "reachable be s"
  then have tl: "\<not> isTreeLoading s" using reachable_inv[OF r] by (simp add: inv_def)
  have noop: "settle (goToLastVisitedFolder be s) = s" if "lastVisitedFolder s = []"
    using that by (simp add: goToLastVisitedFolder_def)
  have swap: "let s1 = settle (goToLastVisitedFolder be s);
             s2 = settle (goToLastVisitedFolder be s1)
         in currentFolder s1 = lastVisitedFolder s \<and> lastVisitedFolder s1 = currentFolder s
            \<and> currentFolder s2 = currentFolder s \<and> lastVisitedFolder s2 = lastVisitedFolder s"
    if h: "lastVisitedFolder s \<noteq> []" "currentFolder s \<noteq> []"
      "currentFolder s \<noteq> lastVisitedFolder s"
  proof -
    let ?s1 = "settle (goToLastVisitedFolder be s)"
    have g1: "goToLastVisitedFolder be s = handleFolderSelected be (lastVisitedFolder s) s"
      using h tl by (simp add: goToLastVisitedFolder_def)
    have f1: "currentFolder ?s1 = lastVisitedFolder s" "lastVisitedFolder ?s1 = currentFolder s"
      "isTreeLoading ?s1 = isTreeLoading s"
      using h by (simp_all add: g1 settle_fields handleFolderSelected_fields)
    have g2: "goToLastVisitedFolder be ?s1 = handleFolderSelected be (currentFolder s) ?s1"
      using h tl f1 by (simp add: goToLastVisitedFolder_def)
    have f2: "currentFolder (settle (goToLastVisitedFolder be ?s1)) = currentFolder s"
      "lastVisitedFolder (settle (goToLastVisitedFolder be ?s1)) = lastVisitedFolder s"
      using h f1 by (simp_all add: g2 settle_fields handleFolderSelected_fields)
    show ?thesis using f1 f2 by (simp add: Let_def)
  qed
  show ?thesis using noop swap by blast
qed

text \<open>
  From \<open>/root/2024-04\<close> with \<open>/root/2024-01\<close> remembered: there and back.
\<close>

theorem goToLastVisitedFolder_swaps_witness:
  "currentFolder (album_after
      [Browse (Inr ''/root''), TreeClick ''/root/2024-01'', TreeClick ''/root/2024-04''])
     = ''/root/2024-04''
   \<and> lastVisitedFolder (album_after
      [Browse (Inr ''/root''), TreeClick ''/root/2024-01'', TreeClick ''/root/2024-04''])
     = ''/root/2024-01''
   \<and> currentFolder (settle (goToLastVisitedFolder album (album_after
      [Browse (Inr ''/root''), TreeClick ''/root/2024-01'', TreeClick ''/root/2024-04''])))
     = ''/root/2024-01''
   \<and> currentFolder (settle (goToLastVisitedFolder album
        (settle (goToLastVisitedFolder album (album_after
      [Browse (Inr ''/root''), TreeClick ''/root/2024-01'', TreeClick ''/root/2024-04''])))))
     = ''/root/2024-04''
   \<and> lastVisitedFolder (settle (goToLastVisitedFolder album
        (settle (goToLastVisitedFolder album (album_after
      [Browse (Inr ''/root''), TreeClick ''/root/2024-01'', TreeClick ''/root/2024-04''])))))
     = ''/root/2024-01''"
proof -
  let ?ops = "[Browse (Inr ''/root''), TreeClick ''/root/2024-01'', TreeClick ''/root/2024-04'']"
  have "run_all album ?ops initial \<noteq> None" by code_simp
  then have r: "reachable album (album_after ?ops)" by (rule album_after_reachable)
  have here: "currentFolder (album_after ?ops) = ''/root/2024-04''
      \<and> lastVisitedFolder (album_after ?ops) = ''/root/2024-01''" by code_simp
  show ?thesis
    using goToLastVisitedFolder_swaps[OF r] here by (simp add: Let_def)
qed

text \<open>
  Claim C10 fails on the code. A sequence slideshow runs and shows the last image of
  \<open>/root/2024-02\<close>; the next leaf folder \<open>/root/2024-03\<close> holds no image, so nothing was
  prefetched from it. The tick switches to that folder through \<open>handleFolderSelected\<close>,
  and \<open>loadImagesForPath\<close> stops the slideshow there, although the leaf folder
  \<open>/root/2024-04\<close> follows.
\<close>

theorem sequence_tick_into_empty_folder_stops_slideshow:
  "slideshowActive (album_after [Browse (Inr ''/root''), TreeClick ''/root/2024-01'',
      Start [] (0, 0) (0, 0), Tick [] (0, 0) (0, 0)])
   \<and> slideshowMode (album_after [Browse (Inr ''/root''), TreeClick ''/root/2024-01'',
      Start [] (0, 0) (0, 0), Tick [] (0, 0) (0, 0)]) = Sequence
   \<and> currentFolder (album_after [Browse (Inr ''/root''), TreeClick ''/root/2024-01'',
      Start [] (0, 0) (0, 0), Tick [] (0, 0) (0, 0)]) = ''/root/2024-02''
   \<and> nextLeafFolder (album_after [Browse (Inr ''/root''), TreeClick ''/root/2024-01'',
      Start [] (0, 0) (0, 0), Tick [] (0, 0) (0, 0)]) = Some ''/root/2024-03''
   \<and> currentFolder (album_after [Browse (Inr ''/root''), TreeClick ''/root/2024-01'',
      Start [] (0, 0) (0, 0), Tick [] (0, 0) (0, 0), Tick [] (0, 0) (0, 0)]) = ''/root/2024-03''
   \<and> \<not> slideshowActive (album_after [Browse (Inr ''/root''), TreeClick ''/root/2024-01'',
      Start [] (0, 0) (0, 0), Tick [] (0, 0) (0, 0), Tick [] (0, 0) (0, 0)])
   \<and> timers (album_after [Browse (Inr ''/root''), TreeClick ''/root/2024-01'',
      Start [] (0, 0) (0, 0), Tick [] (0, 0) (0, 0), Tick [] (0, 0) (0, 0)]) = []
   \<and> nextLeafFolder (album_after [Browse (Inr ''/root''), TreeClick ''/root/2024-01'',
      Start [] (0, 0) (0, 0), Tick [] (0, 0) (0, 0), Tick [] (0, 0) (0, 0)])
       = Some ''/root/2024-04''"
  by code_simp

end
